theory Spec2Isabelle
  imports Complex_Main
begin

section \<open>Two-dimensional arrays\<close>

text \<open>
  The similarity matrix, the score matrix and the traceback matrix of
  \<^verbatim>\<open>alignment.py\<close> are two-dimensional numpy arrays: a shape and a row-major
  buffer. Indexing outside the shape raises IndexError in numpy; here it is the
  value \<open>None\<close>. Scores are modelled as real numbers (exact arithmetic, no NaN).
\<close>

record 'a ndarray =
  n_rows :: nat
  n_cols :: nat
  buf :: "'a list"

definition wf_array :: "'a ndarray \<Rightarrow> bool" where
  "wf_array a \<longleftrightarrow> length (buf a) = n_rows a * n_cols a"

definition zeros :: "nat \<Rightarrow> nat \<Rightarrow> ('a::zero) ndarray" where
  "zeros r c = \<lparr>n_rows = r, n_cols = c, buf = replicate (r * c) 0\<rparr>"

definition cell :: "'a ndarray \<Rightarrow> nat \<Rightarrow> nat \<Rightarrow> 'a" where
  "cell a i j = buf a ! (i * n_cols a + j)"

definition in_shape :: "'a ndarray \<Rightarrow> nat \<Rightarrow> nat \<Rightarrow> bool" where
  "in_shape a i j \<longleftrightarrow> i < n_rows a \<and> j < n_cols a"

definition getitem :: "'a ndarray \<Rightarrow> nat \<Rightarrow> nat \<Rightarrow> 'a option" where
  "getitem a i j = (if in_shape a i j then Some (cell a i j) else None)"

definition setitem :: "'a ndarray \<Rightarrow> nat \<Rightarrow> nat \<Rightarrow> 'a \<Rightarrow> 'a ndarray option" where
  "setitem a i j v =
     (if in_shape a i j then Some (a\<lparr>buf := (buf a)[i * n_cols a + j := v]\<rparr>) else None)"

section \<open>Loops\<close>

text \<open>A \<^verbatim>\<open>for\<close> loop over a list of indices whose body may raise.\<close>

fun for_loop :: "'i list \<Rightarrow> ('i \<Rightarrow> 's \<Rightarrow> 's option) \<Rightarrow> 's \<Rightarrow> 's option" where
  "for_loop [] body s = Some s"
| "for_loop (x # xs) body s =
     (case body x s of None \<Rightarrow> None | Some s' \<Rightarrow> for_loop xs body s')"

section \<open>The aligner: \<^verbatim>\<open>smith_waterman_chunks\<close>\<close>

text \<open>\<^verbatim>\<open>np.argmax\<close> on a non-empty list: the first index holding the maximum.\<close>

fun argmax_from :: "real list \<Rightarrow> nat \<Rightarrow> nat \<Rightarrow> real \<Rightarrow> nat" where
  "argmax_from [] k b v = b"
| "argmax_from (x # xs) k b v =
     (if v < x then argmax_from xs (Suc k) k x else argmax_from xs (Suc k) b v)"

definition argmax :: "real list \<Rightarrow> nat" where
  "argmax xs = argmax_from (tl xs) 1 0 (hd xs)"

text \<open>The local variables of the dynamic program.\<close>

record sw_state =
  H_matrix :: "real ndarray"
  traceback :: "nat ndarray"
  max_score :: real
  max_pos :: "nat \<times> nat"

definition sw_init :: "real ndarray \<Rightarrow> sw_state" where
  "sw_init S =
     \<lparr>H_matrix = zeros (n_rows S + 1) (n_cols S + 1),
      traceback = zeros (n_rows S + 1) (n_cols S + 1),
      max_score = 0,
      max_pos = (0, 0)\<rparr>"

text \<open>The body of the inner loop (lines 31 to 47), at cell \<open>(i, j)\<close>.\<close>

definition cell_step ::
  "real ndarray \<Rightarrow> real \<Rightarrow> real \<Rightarrow> real \<Rightarrow> nat \<Rightarrow> nat \<Rightarrow> sw_state \<Rightarrow> sw_state option" where
  "cell_step S gap_open gap_extend score_threshold i j st =
     (case getitem S (i - 1) (j - 1) of None \<Rightarrow> None | Some s \<Rightarrow>
      case getitem (H_matrix st) (i - 1) (j - 1) of None \<Rightarrow> None | Some h_diag \<Rightarrow>
      case getitem (H_matrix st) (i - 1) j of None \<Rightarrow> None | Some h_up \<Rightarrow>
      case getitem (traceback st) (i - 1) j of None \<Rightarrow> None | Some t_up \<Rightarrow>
      case getitem (H_matrix st) i (j - 1) of None \<Rightarrow> None | Some h_left \<Rightarrow>
      case getitem (traceback st) i (j - 1) of None \<Rightarrow> None | Some t_left \<Rightarrow>
       (let sim = s - score_threshold;
            match = h_diag + sim;
            gap_h = h_up + (if t_up = 2 then gap_extend else gap_open);
            gap_b = h_left + (if t_left = 3 then gap_extend else gap_open);
            scores = [0, match, gap_h, gap_b];
            best = argmax scores
        in case setitem (H_matrix st) i j (scores ! best) of None \<Rightarrow> None | Some H' \<Rightarrow>
           case setitem (traceback st) i j best of None \<Rightarrow> None | Some T' \<Rightarrow>
           case getitem H' i j of None \<Rightarrow> None | Some h \<Rightarrow>
             Some (if max_score st < h
                   then \<lparr>H_matrix = H', traceback = T', max_score = h, max_pos = (i, j)\<rparr>
                   else \<lparr>H_matrix = H', traceback = T', max_score = max_score st,
                         max_pos = max_pos st\<rparr>)))"

text \<open>The two nested loops (lines 29 and 30).\<close>

definition sw_fill :: "real ndarray \<Rightarrow> real \<Rightarrow> real \<Rightarrow> real \<Rightarrow> sw_state option" where
  "sw_fill S gap_open gap_extend score_threshold =
     for_loop [1..<n_rows S + 1]
       (\<lambda>i. for_loop [1..<n_cols S + 1] (cell_step S gap_open gap_extend score_threshold i))
       (sw_init S)"

text \<open>
  The traceback loop (lines 52 to 62). Each iteration lowers \<open>i\<close> or \<open>j\<close> or leaves the
  loop; \<open>al\<close> is the list \<^verbatim>\<open>alignment\<close>, appended to at its end.
\<close>

function trace_loop ::
  "real ndarray \<Rightarrow> nat ndarray \<Rightarrow> nat \<Rightarrow> nat \<Rightarrow> (nat \<times> nat) list \<Rightarrow> (nat \<times> nat) list option" where
  "trace_loop H T i j al =
     (if 0 < i \<and> 0 < j then
        (case getitem H i j of None \<Rightarrow> None | Some h \<Rightarrow>
           if 0 < h then
             (case getitem T i j of None \<Rightarrow> None | Some t \<Rightarrow>
                if t = 1 then trace_loop H T (i - 1) (j - 1) (al @ [(i - 1, j - 1)])
                else if t = 2 then trace_loop H T (i - 1) j al
                else if t = 3 then trace_loop H T i (j - 1) al
                else Some al)
           else Some al)
      else Some al)"
  by pat_completeness auto
termination
  by (relation "measure (\<lambda>(H, T, i, j, al). i + j)") auto

declare trace_loop.simps [simp del]

text \<open>The whole function; the result is \<open>None\<close> when an index is out of range.\<close>

definition smith_waterman_chunks ::
  "real ndarray \<Rightarrow> real \<Rightarrow> real \<Rightarrow> real \<Rightarrow> (real \<times> (nat \<times> nat) list \<times> real ndarray) option" where
  "smith_waterman_chunks S gap_open gap_extend score_threshold =
     (case sw_fill S gap_open gap_extend score_threshold of None \<Rightarrow> None | Some st \<Rightarrow>
      case trace_loop (H_matrix st) (traceback st) (fst (max_pos st)) (snd (max_pos st)) [] of
        None \<Rightarrow> None
      | Some alignment \<Rightarrow> Some (max_score st, rev alignment, H_matrix st))"

section \<open>The extractor: \<^verbatim>\<open>find_multiple_alignments\<close>\<close>

text \<open>The constants of \<^verbatim>\<open>config.py\<close> that \<^verbatim>\<open>alignment.py\<close> imports.\<close>

definition GAP_OPEN :: real where
  "GAP_OPEN = - (2 / 10)"

definition GAP_EXTEND :: real where
  "GAP_EXTEND = - (1 / 10)"

definition SCORE_THRESHOLD :: real where
  "SCORE_THRESHOLD = 5 / 10"

text \<open>
  The extractor works on a copy of the caller's matrix and writes to that copy, so
  arrays live in a store: a list of arrays, an address being a position in it.
  \<^verbatim>\<open>S.copy()\<close> allocates a new array at the end of the store.
\<close>

type_synonym heap = "real ndarray list"

definition copy_array :: "heap \<Rightarrow> nat \<Rightarrow> (heap \<times> nat) option" where
  "copy_array h a = (if a < length h then Some (h @ [h ! a], length h) else None)"

text \<open>The assignment \<^verbatim>\<open>S_work[i, j] = 0\<close> to the array at address \<open>w\<close>.\<close>

definition mask_cell :: "nat \<Rightarrow> nat \<times> nat \<Rightarrow> heap \<Rightarrow> heap option" where
  "mask_cell w p h =
     (if w < length h then
        (case setitem (h ! w) (fst p) (snd p) 0 of
           None \<Rightarrow> None
         | Some a \<Rightarrow> Some (h[w := a]))
      else None)"

text \<open>
  The loop \<^verbatim>\<open>for _ in range(max_alignments)\<close> (lines 87 to 98), with the number of
  iterations left as its first argument; \<^verbatim>\<open>break\<close> returns what has been collected.
  The call of the aligner passes no threshold, so it runs with \<open>SCORE_THRESHOLD\<close>.
\<close>

fun extract_loop ::
  "nat \<Rightarrow> heap \<Rightarrow> nat \<Rightarrow> real \<Rightarrow> real \<Rightarrow> real \<Rightarrow> int \<Rightarrow> (real \<times> (nat \<times> nat) list) list \<Rightarrow>
   (heap \<times> (real \<times> (nat \<times> nat) list) list) option" where
  "extract_loop 0 h w gap_open gap_extend min_score min_chunks alignments = Some (h, alignments)"
| "extract_loop (Suc k) h w gap_open gap_extend min_score min_chunks alignments =
     (if w < length h then
        (case smith_waterman_chunks (h ! w) gap_open gap_extend SCORE_THRESHOLD of
           None \<Rightarrow> None
         | Some (score, alignment, H) \<Rightarrow>
             if score < min_score \<or> int (length alignment) < min_chunks
             then Some (h, alignments)
             else (case for_loop alignment (mask_cell w) h of
                     None \<Rightarrow> None
                   | Some h' \<Rightarrow>
                       extract_loop k h' w gap_open gap_extend min_score min_chunks
                         (alignments @ [(score, alignment)])))
      else None)"

text \<open>
  The function itself: \<open>S\<close> is the address of the caller's matrix; the result is the
  store after the call and the list of \<open>(score, alignment)\<close> pairs.
\<close>

definition find_multiple_alignments ::
  "heap \<Rightarrow> nat \<Rightarrow> real \<Rightarrow> real \<Rightarrow> real \<Rightarrow> int \<Rightarrow> int \<Rightarrow>
   (heap \<times> (real \<times> (nat \<times> nat) list) list) option" where
  "find_multiple_alignments h S gap_open gap_extend min_score min_chunks max_alignments =
     (case copy_array h S of
        None \<Rightarrow> None
      | Some (h1, S_work) \<Rightarrow>
          extract_loop (nat max_alignments) h1 S_work gap_open gap_extend min_score min_chunks [])"

section \<open>Definitions used in the statements and proofs\<close>

text \<open>
  The four candidates of cell \<open>(i, j)\<close>, in the order of the list \<^verbatim>\<open>scores\<close>
  (stop, match, gap_h, gap_b), read from a score matrix and a traceback matrix.
\<close>

definition candidates ::
  "real ndarray \<Rightarrow> real \<Rightarrow> real \<Rightarrow> real \<Rightarrow> real ndarray \<Rightarrow> nat ndarray \<Rightarrow> nat \<Rightarrow> nat \<Rightarrow> real list" where
  "candidates S gap_open gap_extend score_threshold H T i j =
     [0,
      cell H (i - 1) (j - 1) + (cell S (i - 1) (j - 1) - score_threshold),
      cell H (i - 1) j + (if cell T (i - 1) j = 2 then gap_extend else gap_open),
      cell H i (j - 1) + (if cell T i (j - 1) = 3 then gap_extend else gap_open)]"

text \<open>
  The score and the tag that cell \<open>(i, j)\<close> ends with, as a recursive function of the
  cell: the proofs show that the loops fill the two matrices with these values.
\<close>

function sw_cell :: "real ndarray \<Rightarrow> real \<Rightarrow> real \<Rightarrow> real \<Rightarrow> nat \<Rightarrow> nat \<Rightarrow> real \<times> nat" where
  "sw_cell S gap_open gap_extend score_threshold i j =
     (if i = 0 \<or> j = 0 then (0, 0)
      else
        (let d = sw_cell S gap_open gap_extend score_threshold (i - 1) (j - 1);
             u = sw_cell S gap_open gap_extend score_threshold (i - 1) j;
             l = sw_cell S gap_open gap_extend score_threshold i (j - 1);
             scores = [0,
                       fst d + (cell S (i - 1) (j - 1) - score_threshold),
                       fst u + (if snd u = 2 then gap_extend else gap_open),
                       fst l + (if snd l = 3 then gap_extend else gap_open)];
             best = argmax scores
         in (scores ! best, best)))"
  by pat_completeness auto
termination
  by (relation "measure (\<lambda>(S, go, ge, th, i, j). i + j)") auto

declare sw_cell.simps [simp del]

text \<open>The cells that the loops have filled when they reach cell \<open>(i, j)\<close>.\<close>

definition filled :: "nat \<Rightarrow> nat \<Rightarrow> nat \<Rightarrow> nat \<Rightarrow> bool" where
  "filled i j a b \<longleftrightarrow> 1 \<le> a \<and> 1 \<le> b \<and> (a < i \<or> (a = i \<and> b < j))"

text \<open>The invariant of the two loops of the aligner, on reaching cell \<open>(i, j)\<close>.\<close>

definition sw_inv ::
  "real ndarray \<Rightarrow> real \<Rightarrow> real \<Rightarrow> real \<Rightarrow> nat \<Rightarrow> nat \<Rightarrow> sw_state \<Rightarrow> bool" where
  "sw_inv S go ge th i j st \<longleftrightarrow>
     wf_array (H_matrix st) \<and> n_rows (H_matrix st) = n_rows S + 1 \<and>
     n_cols (H_matrix st) = n_cols S + 1 \<and>
     wf_array (traceback st) \<and> n_rows (traceback st) = n_rows S + 1 \<and>
     n_cols (traceback st) = n_cols S + 1 \<and>
     (\<forall>a b. a \<le> n_rows S \<and> b \<le> n_cols S \<longrightarrow>
        cell (H_matrix st) a b = (if filled i j a b then fst (sw_cell S go ge th a b) else 0) \<and>
        cell (traceback st) a b = (if filled i j a b then snd (sw_cell S go ge th a b) else 0)) \<and>
     0 \<le> max_score st \<and>
     (\<forall>a b. a \<le> n_rows S \<and> b \<le> n_cols S \<and> filled i j a b \<longrightarrow>
        fst (sw_cell S go ge th a b) \<le> max_score st) \<and>
     (if max_score st = 0 then max_pos st = (0, 0)
      else 1 \<le> fst (max_pos st) \<and> fst (max_pos st) \<le> n_rows S \<and>
           1 \<le> snd (max_pos st) \<and> snd (max_pos st) \<le> n_cols S \<and>
           filled i j (fst (max_pos st)) (snd (max_pos st)) \<and>
           fst (sw_cell S go ge th (fst (max_pos st)) (snd (max_pos st))) = max_score st)"

text \<open>The masking loop and the extractor's loop as functions of the working array alone.\<close>

definition mask_array :: "(nat \<times> nat) list \<Rightarrow> real ndarray \<Rightarrow> real ndarray option" where
  "mask_array al a = for_loop al (\<lambda>p a. setitem a (fst p) (snd p) 0) a"

fun extract_array ::
  "nat \<Rightarrow> real ndarray \<Rightarrow> real \<Rightarrow> real \<Rightarrow> real \<Rightarrow> int \<Rightarrow> (real \<times> (nat \<times> nat) list) list \<Rightarrow>
   (real ndarray \<times> (real \<times> (nat \<times> nat) list) list) option" where
  "extract_array 0 W go ge ms mc acc = Some (W, acc)"
| "extract_array (Suc k) W go ge ms mc acc =
     (case smith_waterman_chunks W go ge SCORE_THRESHOLD of
        None \<Rightarrow> None
      | Some (score, alignment, H) \<Rightarrow>
          if score < ms \<or> int (length alignment) < mc then Some (W, acc)
          else (case mask_array alignment W of
                  None \<Rightarrow> None
                | Some W' \<Rightarrow> extract_array k W' go ge ms mc (acc @ [(score, alignment)])))"

text \<open>Every entry of a matrix is at most the entry of another of the same shape.\<close>

definition array_le :: "real ndarray \<Rightarrow> real ndarray \<Rightarrow> bool" where
  "array_le A B \<longleftrightarrow>
     n_rows A = n_rows B \<and> n_cols A = n_cols B \<and>
     (\<forall>i j. i < n_rows A \<and> j < n_cols A \<longrightarrow> cell A i j \<le> cell B i j)"

text \<open>No entry of a matrix is negative.\<close>

definition nonneg_array :: "real ndarray \<Rightarrow> bool" where
  "nonneg_array A \<longleftrightarrow> (\<forall>i \<in> {0..<n_rows A}. \<forall>j \<in> {0..<n_cols A}. 0 \<le> cell A i j)"

text \<open>
  Example inputs: the matrix of \<^verbatim>\<open>tests/test_modules.py\<close>, and a matrix with every
  entry below the threshold.
\<close>

definition S_test :: "real ndarray" where
  "S_test = \<lparr>n_rows = 3, n_cols = 3,
     buf = [9 / 10, 8 / 10, 3 / 10,
            7 / 10, 9 / 10, 4 / 10,
            3 / 10, 5 / 10, 8 / 10]\<rparr>"

definition S_low :: "real ndarray" where
  "S_low = \<lparr>n_rows = 3, n_cols = 3,
     buf = [4 / 10, 4 / 10, 4 / 10,
            4 / 10, 4 / 10, 4 / 10,
            4 / 10, 4 / 10, 4 / 10]\<rparr>"

text \<open>
  A matrix on which raising one entry lowers the best score, one on which the second
  alignment scores higher than the first, and one on which two alignments share a cell.
\<close>

definition S_mono :: "real ndarray" where
  "S_mono = \<lparr>n_rows = 2, n_cols = 4,
     buf = [3, 0, 0, 0,
            0, 0, 0, 3]\<rparr>"

definition S_mono_raised :: "real ndarray" where
  "S_mono_raised = \<lparr>n_rows = 2, n_cols = 4,
     buf = [3, 9 / 4, 0, 0,
            0, 0, 0, 3]\<rparr>"

definition S_order :: "real ndarray" where
  "S_order = \<lparr>n_rows = 2, n_cols = 4,
     buf = [11 / 4, 9 / 4, 1 / 4, 1 / 2,
            3, 5 / 4, 2, 5 / 2]\<rparr>"

definition S_overlap :: "real ndarray" where
  "S_overlap = \<lparr>n_rows = 5, n_cols = 4,
     buf = [- 1, 9 / 2, - 1, - 1,
            - 1, 9 / 2, - 1, - 1,
            - 1, - 1, 9 / 2, - 1,
            - 1, - 1, - 1, 9 / 2,
            - 1, - 1, - 1, 9 / 2]\<rparr>"

section \<open>Arrays and loops: basic facts\<close>

text \<open>Row-major addressing: distinct cells inside the shape have distinct positions.\<close>

lemma flat_index_less: "i < r \<Longrightarrow> j < c \<Longrightarrow> i * c + j < r * (c::nat)"
proof -
  assume a: "i < r" "j < c"
  have "i * c + j < i * c + c" using a by simp
  also have "\<dots> = Suc i * c" by simp
  also have "\<dots> \<le> r * c" using a by (intro mult_le_mono1) simp
  finally show ?thesis .
qed

lemma flat_index_inj:
  assumes "j < c" "j' < c" "i * c + j = i' * c + (j'::nat)"
  shows "i = i' \<and> j = j'"
proof -
  have "(i * c + j) div c = (i' * c + j') div c" using assms(3) by simp
  then have "i = i'" using assms(1,2) by simp
  then show ?thesis using assms(3) by simp
qed

lemma cell_zeros: "i < r \<Longrightarrow> j < c \<Longrightarrow> cell (zeros r c) i j = 0"
  by (simp add: cell_def zeros_def flat_index_less)

lemma wf_zeros: "wf_array (zeros r c)"
  by (simp add: wf_array_def zeros_def)

lemma shape_zeros: "n_rows (zeros r c) = r" "n_cols (zeros r c) = c"
  by (simp_all add: zeros_def)

lemma getitem_in: "in_shape a i j \<Longrightarrow> getitem a i j = Some (cell a i j)"
  by (simp add: getitem_def)

lemma setitem_in: "in_shape a i j \<Longrightarrow> \<exists>a'. setitem a i j v = Some a'"
  by (simp add: setitem_def)

lemma setitem_shape:
  "setitem a i j v = Some a' \<Longrightarrow> n_rows a' = n_rows a \<and> n_cols a' = n_cols a"
  by (auto simp: setitem_def split: if_splits)

lemma setitem_in_shape:
  "setitem a i j v = Some a' \<Longrightarrow> in_shape a' = in_shape a"
  by (auto simp: setitem_def in_shape_def fun_eq_iff split: if_splits)

lemma setitem_wf: "wf_array a \<Longrightarrow> setitem a i j v = Some a' \<Longrightarrow> wf_array a'"
  by (auto simp: setitem_def wf_array_def split: if_splits)

lemma setitem_cell_same:
  "wf_array a \<Longrightarrow> setitem a i j v = Some a' \<Longrightarrow> cell a' i j = v"
  by (auto simp: setitem_def wf_array_def cell_def in_shape_def flat_index_less split: if_splits)

lemma setitem_cell_other:
  assumes "setitem a i j v = Some a'" "in_shape a i' j'" "i' \<noteq> i \<or> j' \<noteq> j"
  shows "cell a' i' j' = cell a i' j'"
proof -
  have s: "in_shape a i j" and a': "a' = a\<lparr>buf := (buf a)[i * n_cols a + j := v]\<rparr>"
    using assms(1) by (auto simp: setitem_def split: if_splits)
  have "i * n_cols a + j \<noteq> i' * n_cols a + j'"
    using flat_index_inj [of j "n_cols a" j' i i'] s assms(2,3) by (auto simp: in_shape_def)
  then show ?thesis by (simp add: a' cell_def)
qed

text \<open>A loop over a range keeps an invariant that each iteration keeps.\<close>

lemma for_loop_append:
  "for_loop (xs @ ys) body s =
     (case for_loop xs body s of None \<Rightarrow> None | Some s' \<Rightarrow> for_loop ys body s')"
  by (induction xs arbitrary: s) (auto split: option.splits)

lemma for_loop_upt:
  assumes "a \<le> b" "P a s"
    and step: "\<And>k s. a \<le> k \<Longrightarrow> k < b \<Longrightarrow> P k s \<Longrightarrow> \<exists>s'. body k s = Some s' \<and> P (Suc k) s'"
  shows "\<exists>s'. for_loop [a..<b] body s = Some s' \<and> P b s'"
  using assms(1) step
proof (induction b rule: dec_induct)
  case base
  then show ?case using assms(2) by simp
next
  case (step n)
  from step.IH step.prems obtain s1 where s1: "for_loop [a..<n] body s = Some s1" "P n s1"
    by (metis less_Suc_eq)
  from step.prems [OF step.hyps(1) _ s1(2)] obtain s2 where "body n s1 = Some s2" "P (Suc n) s2"
    by auto
  then show ?case using s1 step.hyps by (simp add: for_loop_append)
qed

section \<open>The aligner: the loops fill the matrices with \<open>sw_cell\<close>\<close>

lemma argmax4:
  "argmax [a, b, c, d] =
     (if b \<le> a \<and> c \<le> a \<and> d \<le> a then 0
      else if a < b \<and> c \<le> b \<and> d \<le> b then 1
      else if a < c \<and> b < c \<and> d \<le> c then 2 else 3)"
  by (auto simp: argmax_def)


lemma sw_cell_boundary: "i = 0 \<or> j = 0 \<Longrightarrow> sw_cell S go ge th i j = (0, 0)"
  by (subst sw_cell.simps) simp

lemma sw_cell_rec:
  assumes "0 < i" "0 < j"
  shows "sw_cell S go ge th i j =
    (let scores = [0,
           fst (sw_cell S go ge th (i - 1) (j - 1)) + (cell S (i - 1) (j - 1) - th),
           fst (sw_cell S go ge th (i - 1) j) +
             (if snd (sw_cell S go ge th (i - 1) j) = 2 then ge else go),
           fst (sw_cell S go ge th i (j - 1)) +
             (if snd (sw_cell S go ge th i (j - 1)) = 3 then ge else go)]
     in (scores ! argmax scores, argmax scores))"
  using assms by (subst sw_cell.simps) (simp add: Let_def)

lemma filled_Suc:
  "1 \<le> i \<Longrightarrow> 1 \<le> j \<Longrightarrow> filled i (Suc j) a b \<longleftrightarrow> filled i j a b \<or> (a = i \<and> b = j)"
  by (auto simp: filled_def)

lemma filled_next_row:
  "b \<le> m \<Longrightarrow> filled i (Suc m) a b \<longleftrightarrow> filled (Suc i) 1 a b"
  by (auto simp: filled_def)

lemma inv_cell:
  assumes "sw_inv S go ge th i j st" "a \<le> n_rows S" "b \<le> n_cols S"
    and "filled i j a b \<or> a = 0 \<or> b = 0"
  shows "cell (H_matrix st) a b = fst (sw_cell S go ge th a b)"
    and "cell (traceback st) a b = snd (sw_cell S go ge th a b)"
proof -
  have c: "cell (H_matrix st) a b = (if filled i j a b then fst (sw_cell S go ge th a b) else 0)"
    "cell (traceback st) a b = (if filled i j a b then snd (sw_cell S go ge th a b) else 0)"
    using assms(1-3) unfolding sw_inv_def by blast+
  show "cell (H_matrix st) a b = fst (sw_cell S go ge th a b)"
    using c(1) assms(4) by (auto simp: sw_cell_boundary)
  show "cell (traceback st) a b = snd (sw_cell S go ge th a b)"
    using c(2) assms(4) by (auto simp: sw_cell_boundary)
qed

text \<open>
  One iteration of the inner loop returns normally, writes cell \<open>(i, j)\<close> only, and
  re-establishes the invariant for the next cell.
\<close>

lemma cell_step_inv:
  assumes inv: "sw_inv S go ge th i j st"
    and i: "1 \<le> i" "i \<le> n_rows S" and j: "1 \<le> j" "j \<le> n_cols S"
  shows "\<exists>st'. cell_step S go ge th i j st = Some st' \<and> sw_inv S go ge th i (Suc j) st'"
proof -
  let ?H = "H_matrix st" and ?T = "traceback st"
  let ?v = "fst (sw_cell S go ge th i j)" and ?t = "snd (sw_cell S go ge th i j)"
  have shH: "wf_array ?H" "n_rows ?H = n_rows S + 1" "n_cols ?H = n_cols S + 1"
    and shT: "wf_array ?T" "n_rows ?T = n_rows S + 1" "n_cols ?T = n_cols S + 1"
    using inv unfolding sw_inv_def by blast+
  have inS: "in_shape S (i - 1) (j - 1)"
    using i j unfolding in_shape_def by linarith
  have inH: "in_shape ?H (i - 1) (j - 1)" "in_shape ?H (i - 1) j" "in_shape ?H i (j - 1)"
    "in_shape ?H i j"
    using i j shH unfolding in_shape_def by linarith+
  have inT: "in_shape ?T (i - 1) j" "in_shape ?T i (j - 1)" "in_shape ?T i j"
    using i j shT unfolding in_shape_def by linarith+
  have fd: "filled i j (i - 1) (j - 1) \<or> i - 1 = 0 \<or> j - 1 = 0"
    and fu: "filled i j (i - 1) j \<or> i - 1 = 0 \<or> j = 0"
    and fl: "filled i j i (j - 1) \<or> i = 0 \<or> j - 1 = 0"
    using i j by (auto simp: filled_def)
  have d: "cell ?H (i - 1) (j - 1) = fst (sw_cell S go ge th (i - 1) (j - 1))"
    using inv_cell(1) [OF inv _ _ fd] i j by simp
  have u: "cell ?H (i - 1) j = fst (sw_cell S go ge th (i - 1) j)"
    "cell ?T (i - 1) j = snd (sw_cell S go ge th (i - 1) j)"
    using inv_cell [OF inv _ _ fu] i j by simp_all
  have l: "cell ?H i (j - 1) = fst (sw_cell S go ge th i (j - 1))"
    "cell ?T i (j - 1) = snd (sw_cell S go ge th i (j - 1))"
    using inv_cell [OF inv _ _ fl] i j by simp_all
  obtain H' where H': "setitem ?H i j ?v = Some H'"
    using setitem_in [OF inH(4)] by blast
  obtain T' where T': "setitem ?T i j ?t = Some T'"
    using setitem_in [OF inT(3)] by blast
  have shH': "wf_array H'" "n_rows H' = n_rows S + 1" "n_cols H' = n_cols S + 1"
    using setitem_wf [OF shH(1) H'] setitem_shape [OF H'] shH by simp_all
  have shT': "wf_array T'" "n_rows T' = n_rows S + 1" "n_cols T' = n_cols S + 1"
    using setitem_wf [OF shT(1) T'] setitem_shape [OF T'] shT by simp_all
  have vH': "cell H' i j = ?v" using setitem_cell_same [OF shH(1) H'] .
  have vT': "cell T' i j = ?t" using setitem_cell_same [OF shT(1) T'] .
  have g: "getitem H' i j = Some ?v"
    using i j shH' vH' by (simp add: getitem_def in_shape_def)
  define st' where "st' =
    (if max_score st < ?v
     then \<lparr>H_matrix = H', traceback = T', max_score = ?v, max_pos = (i, j)\<rparr>
     else \<lparr>H_matrix = H', traceback = T', max_score = max_score st, max_pos = max_pos st\<rparr>)"
  have rec: "sw_cell S go ge th i j =
    (let scores = [0,
           cell ?H (i - 1) (j - 1) + (cell S (i - 1) (j - 1) - th),
           cell ?H (i - 1) j + (if cell ?T (i - 1) j = 2 then ge else go),
           cell ?H i (j - 1) + (if cell ?T i (j - 1) = 3 then ge else go)]
     in (scores ! argmax scores, argmax scores))"
    using sw_cell_rec [of i j S go ge th] i j by (simp only: d u l)
  have step: "cell_step S go ge th i j st = Some st'"
    unfolding cell_step_def st'_def
    using H' T' g
    by (simp only: getitem_in [OF inS] getitem_in [OF inH(1)] getitem_in [OF inH(2)]
        getitem_in [OF inH(3)] getitem_in [OF inT(1)] getitem_in [OF inT(2)] option.case
        Let_def rec fst_conv snd_conv) 
  have H_st': "H_matrix st' = H'" and T_st': "traceback st' = T'"
    and ms: "max_score st' = max (max_score st) ?v"
    by (simp_all add: st'_def)
  have cells: "cell H' a b = (if filled i (Suc j) a b then fst (sw_cell S go ge th a b) else 0) \<and>
      cell T' a b = (if filled i (Suc j) a b then snd (sw_cell S go ge th a b) else 0)"
    if ab: "a \<le> n_rows S \<and> b \<le> n_cols S" for a b
  proof (cases "a = i \<and> b = j")
    case True
    then show ?thesis using vH' vT' i j by (simp add: filled_Suc)
  next
    case False
    have "in_shape ?H a b" "in_shape ?T a b" using ab shH shT by (simp_all add: in_shape_def)
    then have "cell H' a b = cell ?H a b" "cell T' a b = cell ?T a b"
      using setitem_cell_other [OF H'] setitem_cell_other [OF T'] False by blast+
    moreover have "cell ?H a b = (if filled i j a b then fst (sw_cell S go ge th a b) else 0)"
      "cell ?T a b = (if filled i j a b then snd (sw_cell S go ge th a b) else 0)"
      using inv ab unfolding sw_inv_def by blast+
    moreover have "filled i (Suc j) a b = filled i j a b"
      using False i j by (auto simp: filled_Suc)
    ultimately show ?thesis by presburger
  qed
  have nonneg: "0 \<le> max_score st" using inv unfolding sw_inv_def by blast
  have bound: "fst (sw_cell S go ge th a b) \<le> max_score st'"
    if ab: "a \<le> n_rows S \<and> b \<le> n_cols S \<and> filled i (Suc j) a b" for a b
  proof (cases "a = i \<and> b = j")
    case True
    then show ?thesis by (simp add: ms)
  next
    case False
    then have "filled i j a b" using ab i j by (auto simp: filled_Suc)
    then have "fst (sw_cell S go ge th a b) \<le> max_score st"
      using inv ab unfolding sw_inv_def by blast
    then show ?thesis by (simp add: ms)
  qed
  have pos: "if max_score st' = 0 then max_pos st' = (0, 0)
      else 1 \<le> fst (max_pos st') \<and> fst (max_pos st') \<le> n_rows S \<and>
           1 \<le> snd (max_pos st') \<and> snd (max_pos st') \<le> n_cols S \<and>
           filled i (Suc j) (fst (max_pos st')) (snd (max_pos st')) \<and>
           fst (sw_cell S go ge th (fst (max_pos st')) (snd (max_pos st'))) = max_score st'"
  proof (cases "max_score st < ?v")
    case True
    then show ?thesis using nonneg i j by (simp add: st'_def filled_Suc)
  next
    case False
    have old: "if max_score st = 0 then max_pos st = (0, 0)
      else 1 \<le> fst (max_pos st) \<and> fst (max_pos st) \<le> n_rows S \<and>
           1 \<le> snd (max_pos st) \<and> snd (max_pos st) \<le> n_cols S \<and>
           filled i j (fst (max_pos st)) (snd (max_pos st)) \<and>
           fst (sw_cell S go ge th (fst (max_pos st)) (snd (max_pos st))) = max_score st"
      using inv unfolding sw_inv_def by blast
    show ?thesis using False old i j by (simp add: st'_def filled_Suc split: if_splits)
  qed
  have "sw_inv S go ge th i (Suc j) st'"
    unfolding sw_inv_def H_st' T_st'
    using shH' shT' cells bound pos nonneg ms by (intro conjI allI impI) simp_all
  with step show ?thesis by blast
qed


lemma sw_inv_next_row:
  assumes "sw_inv S go ge th i (Suc (n_cols S)) st"
  shows "sw_inv S go ge th (Suc i) 1 st"
proof -
  have eq: "filled (Suc i) (Suc 0) a b = filled i (Suc (n_cols S)) a b" if "b \<le> n_cols S" for a b
    using filled_next_row [OF that, of i a] by simp
  show ?thesis
    using assms unfolding sw_inv_def by (auto simp: eq split: if_splits)
qed

lemma row_loop_inv:
  assumes "sw_inv S go ge th i 1 st" "1 \<le> i" "i \<le> n_rows S"
  shows "\<exists>st'. for_loop [1..<n_cols S + 1] (cell_step S go ge th i) st = Some st' \<and>
           sw_inv S go ge th (Suc i) 1 st'"
proof -
  have "\<exists>st'. for_loop [1..<n_cols S + 1] (cell_step S go ge th i) st = Some st' \<and>
           sw_inv S go ge th i (n_cols S + 1) st'"
  proof (rule for_loop_upt [where P = "\<lambda>j. sw_inv S go ge th i j"])
    show "1 \<le> n_cols S + 1" by simp
    show "sw_inv S go ge th i 1 st" by fact
    show "\<exists>s'. cell_step S go ge th i k s = Some s' \<and> sw_inv S go ge th i (Suc k) s'"
      if "1 \<le> k" "k < n_cols S + 1" "sw_inv S go ge th i k s" for k s
      using cell_step_inv [OF that(3) assms(2,3) that(1)] that(2) by simp
  qed
  then show ?thesis using sw_inv_next_row by auto
qed

lemma sw_inv_init: "sw_inv S go ge th 1 1 (sw_init S)"
  unfolding sw_inv_def
  by (auto simp: sw_init_def wf_zeros shape_zeros cell_zeros filled_def)

lemma sw_fill_inv:
  "\<exists>st. sw_fill S go ge th = Some st \<and> sw_inv S go ge th (n_rows S + 1) 1 st"
  unfolding sw_fill_def
proof (rule for_loop_upt [where P = "\<lambda>i. sw_inv S go ge th i 1"])
  show "1 \<le> n_rows S + 1" by simp
  show "sw_inv S go ge th 1 1 (sw_init S)" by (rule sw_inv_init)
  show "\<exists>s'. for_loop [1..<n_cols S + 1] (cell_step S go ge th k) s = Some s' \<and>
          sw_inv S go ge th (Suc k) 1 s'"
    if "1 \<le> k" "k < n_rows S + 1" "sw_inv S go ge th k 1 s" for k s
    using row_loop_inv [OF that(3) that(1)] that(2) by simp
qed

lemma sw_final_cell:
  assumes "sw_inv S go ge th (n_rows S + 1) 1 st" "a \<le> n_rows S" "b \<le> n_cols S"
  shows "cell (H_matrix st) a b = fst (sw_cell S go ge th a b)"
    and "cell (traceback st) a b = snd (sw_cell S go ge th a b)"
proof -
  have "filled (n_rows S + 1) 1 a b \<or> a = 0 \<or> b = 0"
    using assms(2) by (auto simp: filled_def)
  from inv_cell [OF assms(1-3) this]
  show "cell (H_matrix st) a b = fst (sw_cell S go ge th a b)"
    and "cell (traceback st) a b = snd (sw_cell S go ge th a b)" by simp_all
qed

text \<open>
  The traceback loop, started inside the score matrix, returns normally, and every pair
  it appends is inside the similarity matrix.
\<close>

lemma trace_loop_bounds:
  assumes "n_rows H = n + 1" "n_cols H = m + 1" "n_rows T = n + 1" "n_cols T = m + 1"
    and "i \<le> n" "j \<le> m" "\<forall>p \<in> set al. fst p < n \<and> snd p < m"
  shows "\<exists>al'. trace_loop H T i j al = Some al' \<and> (\<forall>p \<in> set al'. fst p < n \<and> snd p < m)"
  using assms
proof (induction H T i j al rule: trace_loop.induct)
  case (1 H T i j al)
  show ?case
  proof (cases "0 < i \<and> 0 < j")
    case False
    then show ?thesis using "1.prems"(7) by (subst trace_loop.simps) auto
  next
    case True
    have gH: "getitem H i j = Some (cell H i j)" and gT: "getitem T i j = Some (cell T i j)"
      using "1.prems" by (simp_all add: getitem_def in_shape_def)
    show ?thesis
    proof (cases "0 < cell H i j")
      case False
      then show ?thesis using True gH "1.prems"(7) by (subst trace_loop.simps) simp
    next
      case pos: True
      consider (d) "cell T i j = 1" | (u) "cell T i j = 2" | (l) "cell T i j = 3"
        | (s) "cell T i j \<noteq> 1 \<and> cell T i j \<noteq> 2 \<and> cell T i j \<noteq> 3" by blast
      then show ?thesis
      proof cases
        case d
        have "\<forall>p \<in> set (al @ [(i - 1, j - 1)]). fst p < n \<and> snd p < m"
          using "1.prems"(5,6,7) True by auto
        from "1.IH"(1) [OF True gH pos gT d "1.prems"(1-4) _ _ this] "1.prems"(5,6)
        have "\<exists>al'. trace_loop H T (i - 1) (j - 1) (al @ [(i - 1, j - 1)]) = Some al' \<and>
            (\<forall>p \<in> set al'. fst p < n \<and> snd p < m)" by simp
        then show ?thesis using True gH gT pos d by (subst trace_loop.simps) simp
      next
        case u
        from "1.IH"(2) [OF True gH pos gT _ u "1.prems"(1-4) _ "1.prems"(6,7)] u "1.prems"(5)
        have "\<exists>al'. trace_loop H T (i - 1) j al = Some al' \<and>
            (\<forall>p \<in> set al'. fst p < n \<and> snd p < m)" by simp
        then show ?thesis using True gH gT pos u by (subst trace_loop.simps) simp
      next
        case l
        from "1.IH"(3) [OF True gH pos gT _ _ l "1.prems"(1-4) "1.prems"(5) _ "1.prems"(7)]
          l "1.prems"(6)
        have "\<exists>al'. trace_loop H T i (j - 1) al = Some al' \<and>
            (\<forall>p \<in> set al'. fst p < n \<and> snd p < m)" by simp
        then show ?thesis using True gH gT pos l by (subst trace_loop.simps) simp
      next
        case s
        then show ?thesis using True gH gT pos "1.prems"(7) by (subst trace_loop.simps) simp
      qed
    qed
  qed
qed

lemma sw_inv_max_pos:
  assumes "sw_inv S go ge th i j st"
  shows "fst (max_pos st) \<le> n_rows S \<and> snd (max_pos st) \<le> n_cols S"
  using assms unfolding sw_inv_def by (auto split: if_splits)

text \<open>The aligner always returns; what it returns, in terms of the final state.\<close>

lemma sw_total:
  "\<exists>st al. sw_fill S go ge th = Some st \<and> sw_inv S go ge th (n_rows S + 1) 1 st \<and>
     trace_loop (H_matrix st) (traceback st) (fst (max_pos st)) (snd (max_pos st)) [] = Some al \<and>
     (\<forall>p \<in> set al. fst p < n_rows S \<and> snd p < n_cols S) \<and>
     smith_waterman_chunks S go ge th = Some (max_score st, rev al, H_matrix st)"
proof -
  obtain st where st: "sw_fill S go ge th = Some st" "sw_inv S go ge th (n_rows S + 1) 1 st"
    using sw_fill_inv by blast
  have sh: "n_rows (H_matrix st) = n_rows S + 1" "n_cols (H_matrix st) = n_cols S + 1"
    "n_rows (traceback st) = n_rows S + 1" "n_cols (traceback st) = n_cols S + 1"
    using st(2) unfolding sw_inv_def by blast+
  have mp: "fst (max_pos st) \<le> n_rows S" "snd (max_pos st) \<le> n_cols S"
    using sw_inv_max_pos [OF st(2)] by simp_all
  obtain al where al:
    "trace_loop (H_matrix st) (traceback st) (fst (max_pos st)) (snd (max_pos st)) [] = Some al"
    "\<forall>p \<in> set al. fst p < n_rows S \<and> snd p < n_cols S"
    using trace_loop_bounds [OF sh mp, of "[]"] by auto
  have "smith_waterman_chunks S go ge th = Some (max_score st, rev al, H_matrix st)"
    by (simp add: smith_waterman_chunks_def st(1) al(1))
  with st al show ?thesis by blast
qed

lemma argmax4_props:
  "argmax [a, b, c, d] < 4 \<and>
   (\<forall>k<4. [a, b, c, d] ! k \<le> [a, b, c, d] ! argmax [a, b, c, d]) \<and>
   (\<forall>k<argmax [a, b, c, d]. [a, b, c, d] ! k < [a, b, c, d] ! argmax [a, b, c, d])"
  by (auto simp: argmax4 numeral_eq_Suc less_Suc_eq)

lemma argmax4_max:
  "[a, b, c, d] ! argmax [a, b, c, d] = max a (max b (max c d))"
  by (auto simp: argmax4)

lemma sw_final_candidates:
  assumes inv: "sw_inv S go ge th (n_rows S + 1) 1 st"
    and i: "1 \<le> i" "i \<le> n_rows S" and j: "1 \<le> j" "j \<le> n_cols S"
  shows "cell (traceback st) i j = argmax (candidates S go ge th (H_matrix st) (traceback st) i j)"
    and "cell (H_matrix st) i j =
      candidates S go ge th (H_matrix st) (traceback st) i j ! cell (traceback st) i j"
proof -
  have le: "i - 1 \<le> n_rows S" "j - 1 \<le> n_cols S" using i j by simp_all
  have c: "candidates S go ge th (H_matrix st) (traceback st) i j =
    [0,
     fst (sw_cell S go ge th (i - 1) (j - 1)) + (cell S (i - 1) (j - 1) - th),
     fst (sw_cell S go ge th (i - 1) j) +
       (if snd (sw_cell S go ge th (i - 1) j) = 2 then ge else go),
     fst (sw_cell S go ge th i (j - 1)) +
       (if snd (sw_cell S go ge th i (j - 1)) = 3 then ge else go)]"
    unfolding candidates_def
    by (simp only: sw_final_cell [OF inv le(1) le(2)] sw_final_cell [OF inv le(1) j(2)]
        sw_final_cell [OF inv i(2) le(2)])
  have r: "sw_cell S go ge th i j =
    (candidates S go ge th (H_matrix st) (traceback st) i j !
       argmax (candidates S go ge th (H_matrix st) (traceback st) i j),
     argmax (candidates S go ge th (H_matrix st) (traceback st) i j))"
    using sw_cell_rec [of i j S go ge th] i j unfolding c by (simp add: Let_def)
  show t: "cell (traceback st) i j =
      argmax (candidates S go ge th (H_matrix st) (traceback st) i j)"
    using sw_final_cell(2) [OF inv i(2) j(2)] r by simp
  show "cell (H_matrix st) i j =
      candidates S go ge th (H_matrix st) (traceback st) i j ! cell (traceback st) i j"
    using sw_final_cell(1) [OF inv i(2) j(2)] r t by simp
qed

lemma sw_final_boundary:
  assumes inv: "sw_inv S go ge th (n_rows S + 1) 1 st"
  shows "j \<le> n_cols S \<Longrightarrow> cell (H_matrix st) 0 j = 0"
    and "i \<le> n_rows S \<Longrightarrow> cell (H_matrix st) i 0 = 0"
  using sw_final_cell(1) [OF inv, of 0 j] sw_final_cell(1) [OF inv, of i 0]
  by (simp_all add: sw_cell_boundary)

lemma sw_cell_all_zero:
  assumes low: "\<forall>i j. i < n_rows S \<and> j < n_cols S \<longrightarrow> cell S i j \<le> th"
    and neg: "go < 0" "ge < 0"
  shows "a \<le> n_rows S \<Longrightarrow> b \<le> n_cols S \<Longrightarrow> sw_cell S go ge th a b = (0, 0)"
proof (induction "a + b" arbitrary: a b rule: less_induct)
  case less
  show ?case
  proof (cases "a = 0 \<or> b = 0")
    case True
    then show ?thesis by (rule sw_cell_boundary)
  next
    case False
    then have pos: "0 < a" "0 < b" by simp_all
    have d: "sw_cell S go ge th (a - 1) (b - 1) = (0, 0)"
      using less.hyps [of "a - 1" "b - 1"] less.prems pos by simp
    have u: "sw_cell S go ge th (a - 1) b = (0, 0)"
      using less.hyps [of "a - 1" b] less.prems pos by simp
    have l: "sw_cell S go ge th a (b - 1) = (0, 0)"
      using less.hyps [of a "b - 1"] less.prems pos by simp
    have "a - 1 < n_rows S" "b - 1 < n_cols S"
      using less.prems pos by linarith+
    then have s: "cell S (a - 1) (b - 1) \<le> th"
      using low by blast
    have "sw_cell S go ge th a b =
      (let scores = [0,
           fst (0::real, 0::nat) + (cell S (a - 1) (b - 1) - th),
           fst (0::real, 0::nat) + (if snd (0::real, 0::nat) = 2 then ge else go),
           fst (0::real, 0::nat) + (if snd (0::real, 0::nat) = 3 then ge else go)]
       in (scores ! argmax scores, argmax scores))"
      using sw_cell_rec [OF pos, of S go ge th] by (simp only: d u l)
    then show ?thesis
      using s neg by (simp add: argmax4 Let_def)
  qed
qed

lemma for_loop_skip: "(\<And>x s. body x s = Some s) \<Longrightarrow> for_loop xs body s = Some s"
  by (induction xs) simp_all

section \<open>The extractor: store and working array\<close>

text \<open>
  The extractor touches the store at the address of its working copy only, so its
  loops are the loops \<open>mask_array\<close> and \<open>extract_array\<close> on that array.
\<close>

lemma mask_cell_heap:
  "w < length h \<Longrightarrow>
   mask_cell w p h = map_option (\<lambda>a. h[w := a]) (setitem (h ! w) (fst p) (snd p) 0)"
  by (simp add: mask_cell_def split: option.splits)

lemma mask_loop_heap:
  "w < length h \<Longrightarrow>
   for_loop al (mask_cell w) h = map_option (\<lambda>a. h[w := a]) (mask_array al (h ! w))"
proof (induction al arbitrary: h)
  case Nil
  then show ?case by (simp add: mask_array_def)
next
  case (Cons p al)
  show ?case
  proof (cases "setitem (h ! w) (fst p) (snd p) 0")
    case None
    then show ?thesis using Cons.prems by (simp add: mask_cell_heap mask_array_def)
  next
    case (Some a)
    have "for_loop al (mask_cell w) (h[w := a]) =
        map_option (\<lambda>a'. h[w := a, w := a']) (mask_array al (h[w := a] ! w))"
      using Cons.IH [of "h[w := a]"] Cons.prems by simp
    then show ?thesis
      using Cons.prems Some by (simp add: mask_cell_heap mask_array_def)
  qed
qed

lemma mask_array_props:
  assumes "\<forall>p \<in> set al. in_shape a (fst p) (snd p)"
  shows "\<exists>a'. mask_array al a = Some a' \<and> n_rows a' = n_rows a \<and> n_cols a' = n_cols a \<and>
    (wf_array a \<longrightarrow> wf_array a' \<and>
      (\<forall>i j. in_shape a i j \<longrightarrow> cell a' i j = (if (i, j) \<in> set al then 0 else cell a i j)))"
  using assms
proof (induction al arbitrary: a)
  case Nil
  then show ?case by (simp add: mask_array_def)
next
  case (Cons p al)
  obtain a1 where a1: "setitem a (fst p) (snd p) 0 = Some a1"
    using setitem_in [of a "fst p" "snd p"] Cons.prems by auto
  have sh1: "n_rows a1 = n_rows a" "n_cols a1 = n_cols a" "in_shape a1 = in_shape a"
    using setitem_shape [OF a1] setitem_in_shape [OF a1] by simp_all
  have "\<forall>p \<in> set al. in_shape a1 (fst p) (snd p)"
    using Cons.prems sh1 by simp
  from Cons.IH [OF this] obtain a' where a': "mask_array al a1 = Some a'"
    "n_rows a' = n_rows a1" "n_cols a' = n_cols a1"
    "wf_array a1 \<longrightarrow> wf_array a' \<and>
      (\<forall>i j. in_shape a1 i j \<longrightarrow> cell a' i j = (if (i, j) \<in> set al then 0 else cell a1 i j))"
    by blast
  have m: "mask_array (p # al) a = Some a'"
    using a1 a'(1) by (simp add: mask_array_def)
  have c: "wf_array a' \<and>
      (\<forall>i j. in_shape a i j \<longrightarrow> cell a' i j = (if (i, j) \<in> set (p # al) then 0 else cell a i j))"
    if wf: "wf_array a"
  proof -
    have wf1: "wf_array a1" using setitem_wf [OF wf a1] .
    have c1: "cell a1 i j = (if (i, j) = p then 0 else cell a i j)" if "in_shape a i j" for i j
    proof (cases "(i, j) = p")
      case True
      then show ?thesis using setitem_cell_same [OF wf a1] by auto
    next
      case False
      then have "i \<noteq> fst p \<or> j \<noteq> snd p" by auto
      from setitem_cell_other [OF a1 that this] False show ?thesis by simp
    qed
    show ?thesis
      using a'(4) wf1 c1 sh1 by auto
  qed
  show ?case using m a'(2,3) sh1 c by simp
qed

lemma extract_loop_heap:
  "w < length h \<Longrightarrow>
   extract_loop k h w go ge ms mc acc =
     map_option (\<lambda>(a, r). (h[w := a], r)) (extract_array k (h ! w) go ge ms mc acc)"
proof (induction k arbitrary: h acc)
  case 0
  then show ?case by simp
next
  case (Suc k)
  show ?case
  proof (cases "smith_waterman_chunks (h ! w) go ge SCORE_THRESHOLD")
    case None
    then show ?thesis using Suc.prems by simp
  next
    case (Some res)
    obtain score alignment H where res: "res = (score, alignment, H)"
      by (cases res) auto
    show ?thesis
    proof (cases "score < ms \<or> int (length alignment) < mc")
      case True
      then show ?thesis using Suc.prems Some res by simp
    next
      case False
      show ?thesis
      proof (cases "mask_array alignment (h ! w)")
        case None
        then show ?thesis
          using Suc.prems Some res False by (simp add: mask_loop_heap)
      next
        case (Some W')
        have "extract_loop k (h[w := W']) w go ge ms mc (acc @ [(score, alignment)]) =
          map_option (\<lambda>(a, r). (h[w := W', w := a], r))
            (extract_array k (h[w := W'] ! w) go ge ms mc (acc @ [(score, alignment)]))"
          using Suc.IH [of "h[w := W']"] Suc.prems by simp
        then show ?thesis
          using Suc.prems \<open>smith_waterman_chunks (h ! w) go ge SCORE_THRESHOLD = Some res\<close>
            res False Some
          by (simp add: mask_loop_heap)
      qed
    qed
  qed
qed

lemma find_multiple_alignments_heap:
  "s < length h \<Longrightarrow>
   find_multiple_alignments h s go ge ms mc mx =
     map_option (\<lambda>(a, r). (h @ [a], r)) (extract_array (nat mx) (h ! s) go ge ms mc [])"
  by (simp add: find_multiple_alignments_def copy_array_def extract_loop_heap nth_append)

text \<open>The extractor's loop returns normally, with every returned pair inside the shape.\<close>

lemma extract_array_total:
  assumes "\<forall>x \<in> set acc. \<forall>p \<in> set (snd x). fst p < n \<and> snd p < m"
    and "n_rows W = n" "n_cols W = m"
  shows "\<exists>W' r. extract_array k W go ge ms mc acc = Some (W', r) \<and>
     n_rows W' = n \<and> n_cols W' = m \<and> (wf_array W \<longrightarrow> wf_array W') \<and>
     (\<forall>x \<in> set r. \<forall>p \<in> set (snd x). fst p < n \<and> snd p < m)"
  using assms
proof (induction k arbitrary: W acc)
  case 0
  then show ?case by simp
next
  case (Suc k)
  obtain st :: sw_state and al where sw:
    "\<forall>p \<in> set al. fst p < n_rows W \<and> snd p < n_cols W"
    "smith_waterman_chunks W go ge SCORE_THRESHOLD = Some (max_score st, rev al, H_matrix st)"
    using sw_total [of W go ge SCORE_THRESHOLD] by blast
  show ?case
  proof (cases "max_score st < ms \<or> int (length (rev al)) < mc")
    case True
    have "extract_array (Suc k) W go ge ms mc acc = Some (W, acc)"
      using True by (simp only: extract_array.simps sw(2) option.case prod.case if_True)
    moreover have "wf_array W \<longrightarrow> wf_array W" by simp
    ultimately show ?thesis using Suc.prems(1,2,3)
      by (intro exI [of _ W] exI [of _ acc] conjI)
  next
    case False
    have "\<forall>p \<in> set (rev al). in_shape W (fst p) (snd p)"
      using sw(1) by (simp add: in_shape_def)
    from mask_array_props [OF this] obtain W' where W': "mask_array (rev al) W = Some W'"
      "n_rows W' = n_rows W" "n_cols W' = n_cols W" "wf_array W \<longrightarrow> wf_array W'"
      by blast
    have in_al: "\<forall>p \<in> set (rev al). fst p < n \<and> snd p < m"
      using sw(1) Suc.prems(2,3) by simp
    have acc': "\<forall>x \<in> set (acc @ [(max_score st, rev al)]). \<forall>p \<in> set (snd x). fst p < n \<and> snd p < m"
    proof
      fix x assume "x \<in> set (acc @ [(max_score st, rev al)])"
      then consider "x \<in> set acc" | "x = (max_score st, rev al)" by auto
      then show "\<forall>p \<in> set (snd x). fst p < n \<and> snd p < m"
        using Suc.prems(1) in_al by cases simp_all
    qed
    have sh: "n_rows W' = n" "n_cols W' = m" using W'(2,3) Suc.prems(2,3) by simp_all
    from Suc.IH [OF acc' sh]
    obtain W'' r where r:
      "extract_array k W' go ge ms mc (acc @ [(max_score st, rev al)]) = Some (W'', r)"
      "n_rows W'' = n" "n_cols W'' = m" "wf_array W' \<longrightarrow> wf_array W''"
      "\<forall>x \<in> set r. \<forall>p \<in> set (snd x). fst p < n \<and> snd p < m"
      by blast
    have "extract_array (Suc k) W go ge ms mc acc = Some (W'', r)"
      using False
      by (simp only: extract_array.simps sw(2) option.case prod.case if_False W'(1) r(1))
    moreover have "wf_array W \<longrightarrow> wf_array W''" using W'(4) r(4) by simp
    ultimately show ?thesis using r(2,3,5)
      by (intro exI [of _ W''] exI [of _ r] conjI)
  qed
qed

text \<open>The pairs collected so far are only passed along.\<close>

lemma extract_array_acc:
  "extract_array k W go ge ms mc acc =
     map_option (\<lambda>(a, r). (a, acc @ r)) (extract_array k W go ge ms mc [])"
proof (induction k arbitrary: W acc)
  case 0
  then show ?case by simp
next
  case (Suc k)
  show ?case
  proof (cases "smith_waterman_chunks W go ge SCORE_THRESHOLD")
    case None
    then show ?thesis by simp
  next
    case (Some res)
    obtain score alignment H where res: "res = (score, alignment, H)"
      by (cases res) auto
    show ?thesis
    proof (cases "score < ms \<or> int (length alignment) < mc")
      case True
      then show ?thesis using Some res by simp
    next
      case False
      show ?thesis
      proof (cases "mask_array alignment W")
        case None
        then show ?thesis
          using \<open>smith_waterman_chunks W go ge SCORE_THRESHOLD = Some res\<close> res False by simp
      next
        case m: (Some W')
        have 1: "extract_array k W' go ge ms mc (acc @ [(score, alignment)]) =
            map_option (\<lambda>(a, r). (a, (acc @ [(score, alignment)]) @ r))
              (extract_array k W' go ge ms mc [])"
          by (rule Suc.IH)
        have 2: "extract_array k W' go ge ms mc ([] @ [(score, alignment)]) =
            map_option (\<lambda>(a, r). (a, [(score, alignment)] @ r))
              (extract_array k W' go ge ms mc [])"
          using Suc.IH [of W' "[(score, alignment)]"] by simp
        show ?thesis
          using Some res False m 1 2
          by (cases "extract_array k W' go ge ms mc []") auto
      qed
    qed
  qed
qed

lemma extract_array_Some:
  "\<exists>W' r. extract_array k W go ge ms mc [] = Some (W', r) \<and>
     (\<forall>x \<in> set r. \<forall>p \<in> set (snd x). fst p < n_rows W \<and> snd p < n_cols W)"
proof -
  have "\<forall>x \<in> set ([] :: (real \<times> (nat \<times> nat) list) list).
      \<forall>p \<in> set (snd x). fst p < n_rows W \<and> snd p < n_cols W"
    by simp
  from extract_array_total [OF this refl refl, of k go ge ms mc] show ?thesis by blast
qed

lemma extract_array_twice:
  "\<exists>W1 r1 M W2 r3.
     extract_array 1 W go ge ms mc [] = Some (W1, r1) \<and>
     mask_array (concat (map snd r1)) W = Some M \<and>
     extract_array 1 M go ge ms mc [] = Some (W2, r3) \<and>
     extract_array 2 W go ge ms mc [] = Some (W2, r1 @ r3) \<and>
     drop 1 (r1 @ r3) = r3"
proof -
  obtain st :: sw_state and al where sw:
    "\<forall>p \<in> set al. fst p < n_rows W \<and> snd p < n_cols W"
    "smith_waterman_chunks W go ge SCORE_THRESHOLD = Some (max_score st, rev al, H_matrix st)"
    using sw_total [of W go ge SCORE_THRESHOLD] by blast
  have two: "(2::nat) = Suc (Suc 0)" by simp
  show ?thesis
  proof (cases "max_score st < ms \<or> int (length (rev al)) < mc")
    case True
    have 1: "extract_array 1 W go ge ms mc [] = Some (W, [])"
      using True sw(2) by simp
    have 2: "extract_array 2 W go ge ms mc [] = Some (W, [])"
      unfolding two using True sw(2) by simp
    have 3: "mask_array (concat (map snd [])) W = Some W"
      by (simp add: mask_array_def)
    show ?thesis
      using 1 2 3 by (intro exI [of _ W] exI [of _ "[]"]) simp
  next
    case False
    have "\<forall>p \<in> set (rev al). in_shape W (fst p) (snd p)"
      using sw(1) by (simp add: in_shape_def)
    from mask_array_props [OF this] obtain W' where W': "mask_array (rev al) W = Some W'"
      by blast
    obtain W2 r3 where e: "extract_array 1 W' go ge ms mc [] = Some (W2, r3)"
      using extract_array_Some [of 1 W' go ge ms mc] by blast
    have 1: "extract_array 1 W go ge ms mc [] = Some (W', [(max_score st, rev al)])"
      using False sw(2) W' by simp
    have "extract_array 2 W go ge ms mc [] =
        extract_array 1 W' go ge ms mc [(max_score st, rev al)]"
      unfolding two using False sw(2) W' by simp
    also have "\<dots> = Some (W2, [(max_score st, rev al)] @ r3)"
      using extract_array_acc [of 1 W' go ge ms mc "[(max_score st, rev al)]"] e by simp
    finally have 2: "extract_array 2 W go ge ms mc [] = Some (W2, [(max_score st, rev al)] @ r3)" .
    have 3: "mask_array (concat (map snd [(max_score st, rev al)])) W = Some W'"
      using W' by simp
    show ?thesis
      using 1 2 3 e
      by (intro exI [of _ W'] exI [of _ "[(max_score st, rev al)]"] exI [of _ W2] exI [of _ r3])
        simp
  qed
qed

section \<open>Equal gap penalties: the score grows with the matrix\<close>

text \<open>With equal gap penalties the tags play no part in the score of a cell.\<close>

lemma sw_cell_linear:
  assumes "0 < i" "0 < j"
  shows "fst (sw_cell S g g th i j) =
    max 0 (max (fst (sw_cell S g g th (i - 1) (j - 1)) + (cell S (i - 1) (j - 1) - th))
      (max (fst (sw_cell S g g th (i - 1) j) + g) (fst (sw_cell S g g th i (j - 1)) + g)))"
proof -
  have "sw_cell S g g th i j =
    (let scores = [0,
           fst (sw_cell S g g th (i - 1) (j - 1)) + (cell S (i - 1) (j - 1) - th),
           fst (sw_cell S g g th (i - 1) j) + g,
           fst (sw_cell S g g th i (j - 1)) + g]
     in (scores ! argmax scores, argmax scores))"
    using sw_cell_rec [OF assms, of S g g th] by (simp only: if_cancel)
  then show ?thesis by (simp only: Let_def fst_conv argmax4_max)
qed

lemma sw_cell_mono:
  assumes le: "array_le A B"
  shows "a \<le> n_rows A \<Longrightarrow> b \<le> n_cols A \<Longrightarrow>
    fst (sw_cell A g g th a b) \<le> fst (sw_cell B g g th a b)"
proof (induction "a + b" arbitrary: a b rule: less_induct)
  case less
  show ?case
  proof (cases "a = 0 \<or> b = 0")
    case True
    then show ?thesis by (simp add: sw_cell_boundary)
  next
    case False
    then have pos: "0 < a" "0 < b" by simp_all
    have d: "fst (sw_cell A g g th (a - 1) (b - 1)) \<le> fst (sw_cell B g g th (a - 1) (b - 1))"
      using less.hyps [of "a - 1" "b - 1"] less.prems pos by simp
    have u: "fst (sw_cell A g g th (a - 1) b) \<le> fst (sw_cell B g g th (a - 1) b)"
      using less.hyps [of "a - 1" b] less.prems pos by simp
    have l: "fst (sw_cell A g g th a (b - 1)) \<le> fst (sw_cell B g g th a (b - 1))"
      using less.hyps [of a "b - 1"] less.prems pos by simp
    have "a - 1 < n_rows A" "b - 1 < n_cols A"
      using less.prems pos by linarith+
    then have s: "cell A (a - 1) (b - 1) \<le> cell B (a - 1) (b - 1)"
      using le unfolding array_le_def by blast
    show ?thesis
      unfolding sw_cell_linear [OF pos] using d u l s
      by (intro max.mono order_refl add_mono diff_right_mono)
  qed
qed

lemma sw_inv_final_max:
  assumes inv: "sw_inv S go ge th (n_rows S + 1) 1 st"
  shows "0 \<le> max_score st"
    and "a \<le> n_rows S \<Longrightarrow> b \<le> n_cols S \<Longrightarrow> fst (sw_cell S go ge th a b) \<le> max_score st"
    and "max_score st = 0 \<or>
      (\<exists>a b. a \<le> n_rows S \<and> b \<le> n_cols S \<and> fst (sw_cell S go ge th a b) = max_score st)"
proof -
  show nn: "0 \<le> max_score st" using inv unfolding sw_inv_def by blast
  show "fst (sw_cell S go ge th a b) \<le> max_score st" if ab: "a \<le> n_rows S" "b \<le> n_cols S"
  proof (cases "a = 0 \<or> b = 0")
    case True
    then show ?thesis using nn by (simp add: sw_cell_boundary)
  next
    case False
    then have "filled (n_rows S + 1) 1 a b" using ab by (auto simp: filled_def)
    moreover have "\<forall>a b. a \<le> n_rows S \<and> b \<le> n_cols S \<and> filled (n_rows S + 1) 1 a b \<longrightarrow>
        fst (sw_cell S go ge th a b) \<le> max_score st"
      using inv unfolding sw_inv_def by blast
    ultimately show ?thesis using ab by blast
  qed
  have "if max_score st = 0 then max_pos st = (0, 0)
      else 1 \<le> fst (max_pos st) \<and> fst (max_pos st) \<le> n_rows S \<and>
           1 \<le> snd (max_pos st) \<and> snd (max_pos st) \<le> n_cols S \<and>
           filled (n_rows S + 1) 1 (fst (max_pos st)) (snd (max_pos st)) \<and>
           fst (sw_cell S go ge th (fst (max_pos st)) (snd (max_pos st))) = max_score st"
    using inv unfolding sw_inv_def by blast
  then show "max_score st = 0 \<or>
      (\<exists>a b. a \<le> n_rows S \<and> b \<le> n_cols S \<and> fst (sw_cell S go ge th a b) = max_score st)"
    by (cases "max_score st = 0") auto
qed

lemma sw_score_mono:
  assumes le: "array_le A B"
    and A: "smith_waterman_chunks A g g th = Some (sa, ala, Ha)"
    and B: "smith_waterman_chunks B g g th = Some (sb, alb, Hb)"
  shows "sa \<le> sb"
proof -
  obtain sta :: sw_state and al where a: "sw_inv A g g th (n_rows A + 1) 1 sta"
    "smith_waterman_chunks A g g th = Some (max_score sta, rev al, H_matrix sta)"
    using sw_total [of A g g th] by blast
  obtain stb :: sw_state and al' where b: "sw_inv B g g th (n_rows B + 1) 1 stb"
    "smith_waterman_chunks B g g th = Some (max_score stb, rev al', H_matrix stb)"
    using sw_total [of B g g th] by blast
  have sa: "sa = max_score sta" and sb: "sb = max_score stb"
    using A B a(2) b(2) by simp_all
  have sh: "n_rows A = n_rows B" "n_cols A = n_cols B"
    using le unfolding array_le_def by blast+
  show ?thesis
  proof (cases "max_score sta = 0")
    case True
    then show ?thesis using sw_inv_final_max(1) [OF b(1)] sa sb by simp
  next
    case False
    then obtain x y where xy: "x \<le> n_rows A" "y \<le> n_cols A"
      "fst (sw_cell A g g th x y) = max_score sta"
      using sw_inv_final_max(3) [OF a(1)] by blast
    have "fst (sw_cell A g g th x y) \<le> fst (sw_cell B g g th x y)"
      using sw_cell_mono [OF le xy(1,2)] .
    also have "\<dots> \<le> max_score stb"
      using sw_inv_final_max(2) [OF b(1), of x y] xy(1,2) sh by simp
    finally show ?thesis using xy(3) sa sb by simp
  qed
qed

text \<open>Masking a matrix without negative entries only lowers entries.\<close>

lemma mask_array_le:
  assumes wf: "wf_array W" and nn: "nonneg_array W"
    and al: "\<forall>p \<in> set al. in_shape W (fst p) (snd p)"
    and m: "mask_array al W = Some W'"
  shows "array_le W' W" and "nonneg_array W'" and "wf_array W'"
proof -
  from mask_array_props [OF al] m wf have sh: "n_rows W' = n_rows W" "n_cols W' = n_cols W"
    and wf': "wf_array W'"
    and c: "\<forall>i j. in_shape W i j \<longrightarrow> cell W' i j = (if (i, j) \<in> set al then 0 else cell W i j)"
    by auto
  show "wf_array W'" by fact
  have nn': "0 \<le> cell W i j" if "i < n_rows W \<and> j < n_cols W" for i j
    using nn that unfolding nonneg_array_def by simp
  show "array_le W' W"
    unfolding array_le_def
  proof (intro conjI allI impI)
    show "n_rows W' = n_rows W" "n_cols W' = n_cols W" by fact+
    fix i j assume "i < n_rows W' \<and> j < n_cols W'"
    then have ij: "i < n_rows W \<and> j < n_cols W" using sh by simp
    then have "cell W' i j = (if (i, j) \<in> set al then 0 else cell W i j)"
      using c by (simp add: in_shape_def)
    then show "cell W' i j \<le> cell W i j" using nn' [OF ij] by simp
  qed
  show "nonneg_array W'"
    unfolding nonneg_array_def
  proof (intro ballI)
    fix i j assume "i \<in> {0..<n_rows W'}" "j \<in> {0..<n_cols W'}"
    then have ij: "i < n_rows W \<and> j < n_cols W" using sh by simp
    then have "cell W' i j = (if (i, j) \<in> set al then 0 else cell W i j)"
      using c by (simp add: in_shape_def)
    then show "0 \<le> cell W' i j" using nn' [OF ij] by simp
  qed
qed

lemma extract_array_sorted:
  assumes "wf_array W" "nonneg_array W"
    and "sorted_wrt (\<lambda>x y. y \<le> x) (map fst acc)"
    and "\<forall>x \<in> set acc. \<forall>sc al H.
           smith_waterman_chunks W g g SCORE_THRESHOLD = Some (sc, al, H) \<longrightarrow> sc \<le> fst x"
    and "extract_array k W g g ms mc acc = Some (W', r)"
  shows "sorted_wrt (\<lambda>x y. y \<le> x) (map fst r)"
  using assms
proof (induction k arbitrary: W acc)
  case 0
  then show ?case by simp
next
  case (Suc k)
  obtain st :: sw_state and al where sw:
    "\<forall>p \<in> set al. fst p < n_rows W \<and> snd p < n_cols W"
    "smith_waterman_chunks W g g SCORE_THRESHOLD = Some (max_score st, rev al, H_matrix st)"
    using sw_total [of W g g SCORE_THRESHOLD] by blast
  show ?case
  proof (cases "max_score st < ms \<or> int (length (rev al)) < mc")
    case True
    have "extract_array (Suc k) W g g ms mc acc = Some (W, acc)"
      using True by (simp only: extract_array.simps sw(2) option.case prod.case if_True)
    then show ?thesis using Suc.prems(3,5) by simp
  next
    case False
    have inb: "\<forall>p \<in> set (rev al). in_shape W (fst p) (snd p)"
      using sw(1) by (simp add: in_shape_def)
    from mask_array_props [OF this] obtain W1 where W1: "mask_array (rev al) W = Some W1"
      by blast
    note m = mask_array_le [OF Suc.prems(1,2) inb W1]
    let ?acc = "acc @ [(max_score st, rev al)]"
    have e: "extract_array k W1 g g ms mc ?acc = Some (W', r)"
      using Suc.prems(5) False
      by (simp only: extract_array.simps sw(2) option.case prod.case if_False W1)
    have old: "\<forall>x \<in> set acc. max_score st \<le> fst x"
      using Suc.prems(4) sw(2) by blast
    have s: "sorted_wrt (\<lambda>x y. y \<le> x) (map fst ?acc)"
      using Suc.prems(3) old by (simp add: sorted_wrt_append)
    have b: "\<forall>x \<in> set ?acc. \<forall>sc al' H.
           smith_waterman_chunks W1 g g SCORE_THRESHOLD = Some (sc, al', H) \<longrightarrow> sc \<le> fst x"
    proof (intro ballI allI impI)
      fix x sc al' H
      assume x: "x \<in> set ?acc"
        and w: "smith_waterman_chunks W1 g g SCORE_THRESHOLD = Some (sc, al', H)"
      have "sc \<le> max_score st" using sw_score_mono [OF m(1) w sw(2)] .
      moreover have "max_score st \<le> fst x" using x old by auto
      ultimately show "sc \<le> fst x" by simp
    qed
    show ?thesis using Suc.IH [OF m(3) m(2) s b e] .
  qed
qed

section \<open>The aligner: the claims\<close>

text \<open>
  Claim C4. The aligner returns, and the score matrix it returns has row 0 and column 0
  at 0 and satisfies, at every cell \<open>(i, j)\<close> with \<open>1 \<le> i \<le> n1\<close> and \<open>1 \<le> j \<le> n2\<close>, the
  recurrence \<open>H[i][j] = max(0, diag, gapUp, gapLeft)\<close>, where the gap terms take
  \<open>gapExtend\<close> when the stored tag of the neighbour is UP (2), respectively LEFT (3),
  and \<open>gapOpen\<close> otherwise.
\<close>

theorem score_matrix_recurrence:
  "\<exists>st al. sw_fill S go ge th = Some st \<and>
     smith_waterman_chunks S go ge th = Some (max_score st, al, H_matrix st) \<and>
     n_rows (H_matrix st) = n_rows S + 1 \<and> n_cols (H_matrix st) = n_cols S + 1 \<and>
     (\<forall>j. j \<le> n_cols S \<longrightarrow> cell (H_matrix st) 0 j = 0) \<and>
     (\<forall>i. i \<le> n_rows S \<longrightarrow> cell (H_matrix st) i 0 = 0) \<and>
     (\<forall>i j. 1 \<le> i \<and> i \<le> n_rows S \<and> 1 \<le> j \<and> j \<le> n_cols S \<longrightarrow>
        cell (H_matrix st) i j =
          max 0
           (max (cell (H_matrix st) (i - 1) (j - 1) + (cell S (i - 1) (j - 1) - th))
             (max (cell (H_matrix st) (i - 1) j +
                     (if cell (traceback st) (i - 1) j = 2 then ge else go))
                  (cell (H_matrix st) i (j - 1) +
                     (if cell (traceback st) i (j - 1) = 3 then ge else go)))))"
proof -
  obtain st al where st: "sw_fill S go ge th = Some st"
    "sw_inv S go ge th (n_rows S + 1) 1 st"
    "smith_waterman_chunks S go ge th = Some (max_score st, rev al, H_matrix st)"
    using sw_total [of S go ge th] by blast
  have sh: "n_rows (H_matrix st) = n_rows S + 1" "n_cols (H_matrix st) = n_cols S + 1"
    using st(2) unfolding sw_inv_def by blast+
  have rec: "cell (H_matrix st) i j =
          max 0
           (max (cell (H_matrix st) (i - 1) (j - 1) + (cell S (i - 1) (j - 1) - th))
             (max (cell (H_matrix st) (i - 1) j +
                     (if cell (traceback st) (i - 1) j = 2 then ge else go))
                  (cell (H_matrix st) i (j - 1) +
                     (if cell (traceback st) i (j - 1) = 3 then ge else go))))"
    if "1 \<le> i \<and> i \<le> n_rows S \<and> 1 \<le> j \<and> j \<le> n_cols S" for i j
  proof -
    have "cell (H_matrix st) i j =
      candidates S go ge th (H_matrix st) (traceback st) i j !
        argmax (candidates S go ge th (H_matrix st) (traceback st) i j)"
      using sw_final_candidates [OF st(2), of i j] that by simp
    then show ?thesis unfolding candidates_def argmax4_max .
  qed
  show ?thesis
    using st(1,3) sh sw_final_boundary [OF st(2)] rec by blast
qed

theorem score_matrix_recurrence_witness:
  "\<exists>st al. sw_fill S_test GAP_OPEN GAP_EXTEND SCORE_THRESHOLD = Some st \<and>
     smith_waterman_chunks S_test GAP_OPEN GAP_EXTEND SCORE_THRESHOLD =
       Some (max_score st, al, H_matrix st) \<and>
     cell (H_matrix st) 2 3 =
       max 0
        (max (cell (H_matrix st) 1 2 + (cell S_test 1 2 - SCORE_THRESHOLD))
          (max (cell (H_matrix st) 1 3 + (if cell (traceback st) 1 3 = 2 then GAP_EXTEND else GAP_OPEN))
               (cell (H_matrix st) 2 2 + (if cell (traceback st) 2 2 = 3 then GAP_EXTEND else GAP_OPEN))))"
proof -
  obtain st al where a: "sw_fill S_test GAP_OPEN GAP_EXTEND SCORE_THRESHOLD = Some st"
    "smith_waterman_chunks S_test GAP_OPEN GAP_EXTEND SCORE_THRESHOLD =
       Some (max_score st, al, H_matrix st)"
    and r: "\<forall>i j. 1 \<le> i \<and> i \<le> n_rows S_test \<and> 1 \<le> j \<and> j \<le> n_cols S_test \<longrightarrow>
        cell (H_matrix st) i j =
          max 0
           (max (cell (H_matrix st) (i - 1) (j - 1) + (cell S_test (i - 1) (j - 1) - SCORE_THRESHOLD))
             (max (cell (H_matrix st) (i - 1) j +
                     (if cell (traceback st) (i - 1) j = 2 then GAP_EXTEND else GAP_OPEN))
                  (cell (H_matrix st) i (j - 1) +
                     (if cell (traceback st) i (j - 1) = 3 then GAP_EXTEND else GAP_OPEN))))"
    using score_matrix_recurrence [of S_test GAP_OPEN GAP_EXTEND SCORE_THRESHOLD] by blast
  have "(1::nat) \<le> 2 \<and> 2 \<le> n_rows S_test \<and> (1::nat) \<le> 3 \<and> 3 \<le> n_cols S_test"
    by (simp add: S_test_def)
  from r [rule_format, OF this] a show ?thesis
    by (intro exI [of _ st] exI [of _ al]) (simp add: numeral_2_eq_2 numeral_3_eq_3)
qed

text \<open>
  Claim C5. At every cell the stored tag is the first index, in the order STOP (0),
  DIAGONAL (1), UP (2), LEFT (3), whose candidate equals the cell maximum: the stored
  score is the candidate of the stored tag, no candidate is larger, and every candidate
  of an earlier tag is strictly smaller.
\<close>

theorem tie_break_precedence:
  "\<exists>st al. sw_fill S go ge th = Some st \<and>
     smith_waterman_chunks S go ge th = Some (max_score st, al, H_matrix st) \<and>
     (\<forall>i j. 1 \<le> i \<and> i \<le> n_rows S \<and> 1 \<le> j \<and> j \<le> n_cols S \<longrightarrow>
        cell (traceback st) i j < 4 \<and>
        cell (H_matrix st) i j =
          candidates S go ge th (H_matrix st) (traceback st) i j ! cell (traceback st) i j \<and>
        (\<forall>k. k < 4 \<longrightarrow>
           candidates S go ge th (H_matrix st) (traceback st) i j ! k \<le> cell (H_matrix st) i j) \<and>
        (\<forall>k. k < cell (traceback st) i j \<longrightarrow>
           candidates S go ge th (H_matrix st) (traceback st) i j ! k < cell (H_matrix st) i j))"
proof -
  obtain st al where st: "sw_fill S go ge th = Some st"
    "sw_inv S go ge th (n_rows S + 1) 1 st"
    "smith_waterman_chunks S go ge th = Some (max_score st, rev al, H_matrix st)"
    using sw_total [of S go ge th] by blast
  have tie: "cell (traceback st) i j < 4 \<and>
        cell (H_matrix st) i j =
          candidates S go ge th (H_matrix st) (traceback st) i j ! cell (traceback st) i j \<and>
        (\<forall>k. k < 4 \<longrightarrow>
           candidates S go ge th (H_matrix st) (traceback st) i j ! k \<le> cell (H_matrix st) i j) \<and>
        (\<forall>k. k < cell (traceback st) i j \<longrightarrow>
           candidates S go ge th (H_matrix st) (traceback st) i j ! k < cell (H_matrix st) i j)"
    if "1 \<le> i \<and> i \<le> n_rows S \<and> 1 \<le> j \<and> j \<le> n_cols S" for i j
  proof -
    have t: "cell (traceback st) i j =
        argmax (candidates S go ge th (H_matrix st) (traceback st) i j)"
      and h: "cell (H_matrix st) i j =
        candidates S go ge th (H_matrix st) (traceback st) i j ! cell (traceback st) i j"
      using sw_final_candidates [OF st(2), of i j] that by simp_all
    obtain a b c d where c: "candidates S go ge th (H_matrix st) (traceback st) i j = [a, b, c, d]"
      unfolding candidates_def by blast
    show ?thesis
      using argmax4_props [of a b c d] unfolding h t c by blast
  qed
  show ?thesis using st(1,3) tie by blast
qed

theorem tie_break_precedence_witness:
  "\<exists>st al. sw_fill S_test GAP_OPEN GAP_EXTEND SCORE_THRESHOLD = Some st \<and>
     smith_waterman_chunks S_test GAP_OPEN GAP_EXTEND SCORE_THRESHOLD =
       Some (max_score st, al, H_matrix st) \<and>
     cell (traceback st) 2 3 < 4 \<and>
     cell (H_matrix st) 2 3 =
       candidates S_test GAP_OPEN GAP_EXTEND SCORE_THRESHOLD (H_matrix st) (traceback st) 2 3 !
         cell (traceback st) 2 3 \<and>
     candidates S_test GAP_OPEN GAP_EXTEND SCORE_THRESHOLD (H_matrix st) (traceback st) 2 3 ! 0
       \<le> cell (H_matrix st) 2 3"
proof -
  obtain st al where a: "sw_fill S_test GAP_OPEN GAP_EXTEND SCORE_THRESHOLD = Some st"
    "smith_waterman_chunks S_test GAP_OPEN GAP_EXTEND SCORE_THRESHOLD =
       Some (max_score st, al, H_matrix st)"
    and r: "\<forall>i j. 1 \<le> i \<and> i \<le> n_rows S_test \<and> 1 \<le> j \<and> j \<le> n_cols S_test \<longrightarrow>
        cell (traceback st) i j < 4 \<and>
        cell (H_matrix st) i j =
          candidates S_test GAP_OPEN GAP_EXTEND SCORE_THRESHOLD (H_matrix st) (traceback st) i j !
            cell (traceback st) i j \<and>
        (\<forall>k. k < 4 \<longrightarrow>
           candidates S_test GAP_OPEN GAP_EXTEND SCORE_THRESHOLD (H_matrix st) (traceback st) i j ! k
             \<le> cell (H_matrix st) i j) \<and>
        (\<forall>k. k < cell (traceback st) i j \<longrightarrow>
           candidates S_test GAP_OPEN GAP_EXTEND SCORE_THRESHOLD (H_matrix st) (traceback st) i j ! k
             < cell (H_matrix st) i j)"
    using tie_break_precedence [of S_test GAP_OPEN GAP_EXTEND SCORE_THRESHOLD] by blast
  have "(1::nat) \<le> 2 \<and> 2 \<le> n_rows S_test \<and> (1::nat) \<le> 3 \<and> 3 \<le> n_cols S_test"
    by (simp add: S_test_def)
  from r [rule_format, OF this] have f:
    "cell (traceback st) 2 3 < 4"
    "cell (H_matrix st) 2 3 =
       candidates S_test GAP_OPEN GAP_EXTEND SCORE_THRESHOLD (H_matrix st) (traceback st) 2 3 !
         cell (traceback st) 2 3"
    "\<forall>k. k < 4 \<longrightarrow>
       candidates S_test GAP_OPEN GAP_EXTEND SCORE_THRESHOLD (H_matrix st) (traceback st) 2 3 ! k
         \<le> cell (H_matrix st) 2 3"
    by blast+
  have "candidates S_test GAP_OPEN GAP_EXTEND SCORE_THRESHOLD (H_matrix st) (traceback st) 2 3 ! 0
       \<le> cell (H_matrix st) 2 3"
    using f(3) [rule_format, of 0] by simp
  with a f(1,2) show ?thesis by blast
qed

text \<open>
  Claim C6. When every entry of the matrix is at most the threshold and both gap
  penalties are negative, the aligner returns score 0 and the empty alignment.
\<close>

theorem no_similarity_above_threshold:
  assumes "\<forall>i j. i < n_rows S \<and> j < n_cols S \<longrightarrow> cell S i j \<le> th"
    and "go < 0" "ge < 0"
  shows "\<exists>H. smith_waterman_chunks S go ge th = Some (0, [], H)"
proof -
  obtain st where st: "sw_fill S go ge th = Some st"
    "sw_inv S go ge th (n_rows S + 1) 1 st"
    using sw_fill_inv [of S go ge th] by blast
  have "if max_score st = 0 then max_pos st = (0, 0)
      else 1 \<le> fst (max_pos st) \<and> fst (max_pos st) \<le> n_rows S \<and>
           1 \<le> snd (max_pos st) \<and> snd (max_pos st) \<le> n_cols S \<and>
           filled (n_rows S + 1) 1 (fst (max_pos st)) (snd (max_pos st)) \<and>
           fst (sw_cell S go ge th (fst (max_pos st)) (snd (max_pos st))) = max_score st"
    using st(2) unfolding sw_inv_def by blast
  then have pos: "if max_score st = 0 then max_pos st = (0, 0)
      else fst (max_pos st) \<le> n_rows S \<and> snd (max_pos st) \<le> n_cols S \<and>
           fst (sw_cell S go ge th (fst (max_pos st)) (snd (max_pos st))) = max_score st"
    by (simp split: if_splits)
  have z: "max_score st = 0"
  proof (rule ccontr)
    assume n: "max_score st \<noteq> 0"
    then have "fst (sw_cell S go ge th (fst (max_pos st)) (snd (max_pos st))) = max_score st"
      and "fst (max_pos st) \<le> n_rows S" "snd (max_pos st) \<le> n_cols S"
      using pos by simp_all
    then show False using sw_cell_all_zero [OF assms] n by simp
  qed
  then have mp: "max_pos st = (0, 0)" using pos by simp
  have "trace_loop (H_matrix st) (traceback st) 0 0 [] = Some []"
    by (subst trace_loop.simps) simp
  then show ?thesis
    by (simp add: smith_waterman_chunks_def st(1) z mp)
qed

theorem no_similarity_above_threshold_witness:
  "\<exists>H. smith_waterman_chunks S_low GAP_OPEN GAP_EXTEND SCORE_THRESHOLD = Some (0, [], H)"
proof -
  have all: "\<forall>x \<in> set (buf S_low). x \<le> SCORE_THRESHOLD"
    by (simp add: S_low_def SCORE_THRESHOLD_def)
  have low: "\<forall>i j. i < n_rows S_low \<and> j < n_cols S_low \<longrightarrow> cell S_low i j \<le> SCORE_THRESHOLD"
  proof (intro allI impI)
    fix i j assume "i < n_rows S_low \<and> j < n_cols S_low"
    then have "i * n_cols S_low + j < n_rows S_low * n_cols S_low"
      by (simp add: flat_index_less)
    then have "buf S_low ! (i * n_cols S_low + j) \<in> set (buf S_low)"
      by (intro nth_mem) (simp add: S_low_def)
    then show "cell S_low i j \<le> SCORE_THRESHOLD" using all by (simp add: cell_def)
  qed
  have neg: "GAP_OPEN < 0" "GAP_EXTEND < 0"
    by (simp_all add: GAP_OPEN_def GAP_EXTEND_def)
  show ?thesis
    using no_similarity_above_threshold [OF low neg] .
qed

text \<open>
  Claim C8. On a matrix with no rows or no columns the aligner returns normally, with
  score 0, the empty alignment and the all-zero score matrix.
\<close>

theorem degenerate_shape:
  assumes "n_rows S = 0 \<or> n_cols S = 0"
  shows "smith_waterman_chunks S go ge th =
    Some (0, [], zeros (n_rows S + 1) (n_cols S + 1))"
proof -
  have f: "sw_fill S go ge th = Some (sw_init S)"
  proof (cases "n_rows S = 0")
    case True
    then show ?thesis by (simp add: sw_fill_def)
  next
    case False
    then have c: "n_cols S = 0" using assms by simp
    show ?thesis
      unfolding sw_fill_def by (rule for_loop_skip) (simp add: c)
  qed
  have "trace_loop (zeros (n_rows S + 1) (n_cols S + 1)) (zeros (n_rows S + 1) (n_cols S + 1))
      0 0 [] = Some []"
    by (subst trace_loop.simps) simp
  then show ?thesis
    by (simp add: smith_waterman_chunks_def f sw_init_def)
qed

theorem degenerate_shape_witness:
  "smith_waterman_chunks (zeros 0 5) GAP_OPEN GAP_EXTEND SCORE_THRESHOLD = Some (0, [], zeros 1 6) \<and>
   smith_waterman_chunks (zeros 5 0) GAP_OPEN GAP_EXTEND SCORE_THRESHOLD = Some (0, [], zeros 6 1)"
  using degenerate_shape [of "zeros 0 5" GAP_OPEN GAP_EXTEND SCORE_THRESHOLD]
    degenerate_shape [of "zeros 5 0" GAP_OPEN GAP_EXTEND SCORE_THRESHOLD]
  by (simp add: shape_zeros)

section \<open>The aligner and the extractor: the remaining claims\<close>

text \<open>
  Claim C1 (a defect of the code). The docstring of \<^verbatim>\<open>find_multiple_alignments\<close>
  promises non-overlapping alignments, and the claim says that no index pair occurs in
  two returned alignments. On \<open>S_overlap\<close> with both gap penalties \<open>-1\<close> and the default
  \<open>min_score = 1\<close>, \<open>min_chunks = 3\<close>, \<open>max_alignments = 10\<close>, the code returns two
  alignments that both contain the pair \<open>(2, 2)\<close>: a cell masked to 0 costs
  \<open>0 - SCORE_THRESHOLD\<close> on a diagonal step, which is cheaper than two gaps.
\<close>

theorem overlapping_alignments:
  "map_option snd (find_multiple_alignments [S_overlap] 0 (- 1) (- 1) 1 3 10) =
     Some [(12, [(1, 1), (2, 2), (3, 3)]), (11 / 2, [(0, 1), (2, 2), (4, 3)])]"
  by code_simp

text \<open>
  Claim C2, as stated, fails: raising the entry \<open>(0, 1)\<close> of \<open>S_mono\<close> from 0 to 9/4, with
  \<open>gapOpen = -1\<close>, \<open>gapExtend = -1/2\<close> and threshold 1/2, lowers the best score from 7/2 to
  13/4. The raised entry turns the tag of its cell from LEFT to DIAGONAL, so the next
  cell of the row pays \<open>gapOpen\<close> where it paid \<open>gapExtend\<close>.
\<close>

theorem max_score_monotone_counterexample:
  "setitem S_mono 0 1 (9 / 4) = Some S_mono_raised \<and>
   cell S_mono 0 1 < 9 / 4 \<and>
   map_option fst (smith_waterman_chunks S_mono (- 1) (- (1 / 2)) (1 / 2)) = Some (7 / 2) \<and>
   map_option fst (smith_waterman_chunks S_mono_raised (- 1) (- (1 / 2)) (1 / 2)) = Some (13 / 4) \<and>
   (13 / 4 :: real) < 7 / 2"
  by code_simp

text \<open>
  Claim C2, amended: when the two gap penalties are equal, raising one entry of the
  matrix (all else fixed) never lowers the score the aligner returns.
\<close>

theorem max_score_monotone_equal_gaps:
  assumes "wf_array S" "in_shape S i j" "cell S i j \<le> v"
  shows "\<exists>S' score alignment H score' alignment' H'.
      setitem S i j v = Some S' \<and>
      smith_waterman_chunks S g g th = Some (score, alignment, H) \<and>
      smith_waterman_chunks S' g g th = Some (score', alignment', H') \<and>
      score \<le> score'"
proof -
  obtain S' where S': "setitem S i j v = Some S'"
    using setitem_in [OF assms(2)] by blast
  have le: "array_le S S'"
    unfolding array_le_def
  proof (intro conjI allI impI)
    show "n_rows S = n_rows S'" "n_cols S = n_cols S'"
      using setitem_shape [OF S'] by simp_all
    fix a b assume ab: "a < n_rows S \<and> b < n_cols S"
    show "cell S a b \<le> cell S' a b"
    proof (cases "a = i \<and> b = j")
      case True
      then show ?thesis using setitem_cell_same [OF assms(1) S'] assms(3) by simp
    next
      case False
      then have "cell S' a b = cell S a b"
        using setitem_cell_other [OF S', of a b] ab by (auto simp: in_shape_def)
      then show ?thesis by simp
    qed
  qed
  obtain st :: sw_state and al where
    a: "smith_waterman_chunks S g g th = Some (max_score st, rev al, H_matrix st)"
    using sw_total [of S g g th] by blast
  obtain st' :: sw_state and al' where
    b: "smith_waterman_chunks S' g g th = Some (max_score st', rev al', H_matrix st')"
    using sw_total [of S' g g th] by blast
  have "max_score st \<le> max_score st'"
    using sw_score_mono [OF le a b] .
  with S' a b show ?thesis by blast
qed

theorem max_score_monotone_equal_gaps_witness:
  "\<exists>S' score alignment H score' alignment' H'.
      setitem S_test 0 1 (9 / 10) = Some S' \<and>
      smith_waterman_chunks S_test GAP_OPEN GAP_OPEN SCORE_THRESHOLD = Some (score, alignment, H) \<and>
      smith_waterman_chunks S' GAP_OPEN GAP_OPEN SCORE_THRESHOLD = Some (score', alignment', H') \<and>
      score \<le> score'"
proof (rule max_score_monotone_equal_gaps)
  show "wf_array S_test" by (simp add: wf_array_def S_test_def)
  show "in_shape S_test 0 1" by (simp add: in_shape_def S_test_def)
  show "cell S_test 0 1 \<le> 9 / 10" by (simp add: cell_def S_test_def)
qed

text \<open>
  Claim C3, as stated, fails: on \<open>S_order\<close> with \<open>gapOpen = -1/2\<close>, \<open>gapExtend = -1/4\<close>,
  \<open>min_score = 1\<close>, \<open>min_chunks = 2\<close> and \<open>max_alignments = 2\<close> the extractor returns
  the scores 13/4 and then 7/2.
\<close>

theorem scores_nonincreasing_counterexample:
  "map_option snd (find_multiple_alignments [S_order] 0 (- (1 / 2)) (- (1 / 4)) 1 2 2) =
     Some [(13 / 4, [(0, 1), (1, 2)]), (7 / 2, [(0, 0), (1, 3)])] \<and>
   (13 / 4 :: real) < 7 / 2"
  by code_simp

text \<open>
  Claim C3, amended: when the two gap penalties are equal and no entry of the matrix is
  negative, the scores of the returned pairs, in the order of discovery, never increase.
\<close>

theorem scores_nonincreasing_equal_gaps_nonneg:
  assumes "s < length h" "wf_array (h ! s)" "nonneg_array (h ! s)"
  shows "\<exists>h' r. find_multiple_alignments h s g g ms mc mx = Some (h', r) \<and>
           sorted_wrt (\<lambda>x y. y \<le> x) (map fst r)"
proof -
  obtain W' r where e: "extract_array (nat mx) (h ! s) g g ms mc [] = Some (W', r)"
    using extract_array_Some [of "nat mx" "h ! s" g g ms mc] by blast
  have "sorted_wrt (\<lambda>x y. y \<le> x) (map fst r)"
    using extract_array_sorted [OF assms(2,3) _ _ e] by simp
  moreover have "find_multiple_alignments h s g g ms mc mx = Some (h @ [W'], r)"
    using assms(1) e by (simp add: find_multiple_alignments_heap)
  ultimately show ?thesis by blast
qed

theorem scores_nonincreasing_equal_gaps_nonneg_witness:
  "\<exists>h' r. find_multiple_alignments [S_test] 0 GAP_OPEN GAP_OPEN (1 / 10) 1 10 = Some (h', r) \<and>
           sorted_wrt (\<lambda>x y. y \<le> x) (map fst r)"
proof (rule scores_nonincreasing_equal_gaps_nonneg)
  show "0 < length [S_test]" by simp
  show "wf_array ([S_test] ! 0)" by (simp add: wf_array_def S_test_def)
  show "nonneg_array ([S_test] ! 0)" by code_simp
qed

text \<open>
  Claim C7. Running the extractor with \<open>max_alignments = 1\<close>, zeroing the cells of the
  returned alignment in a copy of the matrix, and running the extractor with
  \<open>max_alignments = 1\<close> on that copy gives the pair that follows the first one in a run
  with \<open>max_alignments = 2\<close> on the matrix, or gives nothing where that run has no
  second pair: the result of the run with 2 is the first result followed by the
  second, and the second is what the run with 2 returns after its first pair. Every
  step returns normally.
\<close>

theorem masking_idempotence:
  assumes "s < length h"
  shows "\<exists>h1 r1 h2 c h3 h4 r3 h5.
      find_multiple_alignments h s go ge ms mc 1 = Some (h1, r1) \<and>
      copy_array h1 s = Some (h2, c) \<and>
      for_loop (concat (map snd r1)) (mask_cell c) h2 = Some h3 \<and>
      find_multiple_alignments h3 c go ge ms mc 1 = Some (h4, r3) \<and>
      find_multiple_alignments h s go ge ms mc 2 = Some (h5, r1 @ r3) \<and>
      drop 1 (r1 @ r3) = r3"
proof -
  obtain W1 r1 M W2 r3 where a:
    "extract_array 1 (h ! s) go ge ms mc [] = Some (W1, r1)"
    "mask_array (concat (map snd r1)) (h ! s) = Some M"
    "extract_array 1 M go ge ms mc [] = Some (W2, r3)"
    "extract_array 2 (h ! s) go ge ms mc [] = Some (W2, r1 @ r3)"
    "drop 1 (r1 @ r3) = r3"
    using extract_array_twice [of "h ! s" go ge ms mc] by blast
  let ?h1 = "h @ [W1]"
  let ?h2 = "?h1 @ [?h1 ! s]"
  let ?c = "length ?h1"
  let ?h3 = "?h2[?c := M]"
  have 1: "find_multiple_alignments h s go ge ms mc 1 = Some (?h1, r1)"
    using assms a(1) by (simp add: find_multiple_alignments_heap)
  have 2: "copy_array ?h1 s = Some (?h2, ?c)"
    using assms by (simp add: copy_array_def)
  have hs: "?h2 ! ?c = h ! s"
    using assms by (simp add: nth_append)
  have c: "?c < length ?h2" by simp
  have 3: "for_loop (concat (map snd r1)) (mask_cell ?c) ?h2 = Some ?h3"
    using mask_loop_heap [OF c, of "concat (map snd r1)"] a(2) unfolding hs by simp
  have c3: "?c < length ?h3" by simp
  have "?h3 ! ?c = M" by simp
  then have 4: "find_multiple_alignments ?h3 ?c go ge ms mc 1 = Some (?h3 @ [W2], r3)"
    using find_multiple_alignments_heap [OF c3, of go ge ms mc 1] a(3) by simp
  have 5: "find_multiple_alignments h s go ge ms mc 2 = Some (h @ [W2], r1 @ r3)"
    using assms a(4) by (simp add: find_multiple_alignments_heap)
  show ?thesis using 1 2 3 4 5 a(5) by blast
qed

theorem masking_idempotence_witness:
  "\<exists>h1 r1 h2 c h3 h4 r3 h5.
      find_multiple_alignments [S_test] 0 GAP_OPEN GAP_EXTEND (1 / 10) 1 1 = Some (h1, r1) \<and>
      copy_array h1 0 = Some (h2, c) \<and>
      for_loop (concat (map snd r1)) (mask_cell c) h2 = Some h3 \<and>
      find_multiple_alignments h3 c GAP_OPEN GAP_EXTEND (1 / 10) 1 1 = Some (h4, r3) \<and>
      find_multiple_alignments [S_test] 0 GAP_OPEN GAP_EXTEND (1 / 10) 1 2 = Some (h5, r1 @ r3) \<and>
      drop 1 (r1 @ r3) = r3"
  by (rule masking_idempotence) simp

text \<open>
  Claim C9. The extractor returns normally, and every array that was in the store
  before the call, the caller's matrix among them, is unchanged after it: the call only
  adds its working copy at a new address.
\<close>

theorem caller_matrix_preserved:
  assumes "s < length h"
  shows "\<exists>h' r. find_multiple_alignments h s go ge ms mc mx = Some (h', r) \<and>
           take (length h) h' = h \<and> h' ! s = h ! s"
proof -
  obtain W' r where e: "extract_array (nat mx) (h ! s) go ge ms mc [] = Some (W', r)"
    using extract_array_Some [of "nat mx" "h ! s" go ge ms mc] by blast
  have "find_multiple_alignments h s go ge ms mc mx = Some (h @ [W'], r)"
    using assms e by (simp add: find_multiple_alignments_heap)
  moreover have "take (length h) (h @ [W']) = h" by simp
  moreover have "(h @ [W']) ! s = h ! s" using assms by (simp add: nth_append)
  ultimately show ?thesis by blast
qed

theorem caller_matrix_preserved_witness:
  "\<exists>h' r. find_multiple_alignments [S_test] 0 GAP_OPEN GAP_EXTEND 1 3 10 = Some (h', r) \<and>
           take (length [S_test]) h' = [S_test] \<and> h' ! 0 = [S_test] ! 0"
  by (rule caller_matrix_preserved) simp

text \<open>
  Claim C10. Every index pair of the alignment that the aligner returns lies inside the
  shape of the matrix, and the extractor, whose masking writes use these pairs, returns
  normally (no write is out of range) with every returned pair inside the shape.
\<close>

theorem alignment_in_bounds:
  assumes "s < length h"
  shows "(\<exists>score alignment H.
            smith_waterman_chunks (h ! s) go ge th = Some (score, alignment, H) \<and>
            (\<forall>p \<in> set alignment. fst p < n_rows (h ! s) \<and> snd p < n_cols (h ! s))) \<and>
         (\<exists>h' r. find_multiple_alignments h s go ge ms mc mx = Some (h', r) \<and>
            (\<forall>x \<in> set r. \<forall>p \<in> set (snd x). fst p < n_rows (h ! s) \<and> snd p < n_cols (h ! s)))"
proof
  obtain st :: sw_state and al where sw:
    "\<forall>p \<in> set al. fst p < n_rows (h ! s) \<and> snd p < n_cols (h ! s)"
    "smith_waterman_chunks (h ! s) go ge th = Some (max_score st, rev al, H_matrix st)"
    using sw_total [of "h ! s" go ge th] by blast
  have "\<forall>p \<in> set (rev al). fst p < n_rows (h ! s) \<and> snd p < n_cols (h ! s)"
    using sw(1) by simp
  with sw(2) show "\<exists>score alignment H.
            smith_waterman_chunks (h ! s) go ge th = Some (score, alignment, H) \<and>
            (\<forall>p \<in> set alignment. fst p < n_rows (h ! s) \<and> snd p < n_cols (h ! s))"
    by blast
next
  obtain W' r where e: "extract_array (nat mx) (h ! s) go ge ms mc [] = Some (W', r)"
    "\<forall>x \<in> set r. \<forall>p \<in> set (snd x). fst p < n_rows (h ! s) \<and> snd p < n_cols (h ! s)"
    using extract_array_Some [of "nat mx" "h ! s" go ge ms mc] by blast
  have "find_multiple_alignments h s go ge ms mc mx = Some (h @ [W'], r)"
    using assms e(1) by (simp add: find_multiple_alignments_heap)
  with e(2) show "\<exists>h' r. find_multiple_alignments h s go ge ms mc mx = Some (h', r) \<and>
            (\<forall>x \<in> set r. \<forall>p \<in> set (snd x). fst p < n_rows (h ! s) \<and> snd p < n_cols (h ! s))"
    by blast
qed

theorem alignment_in_bounds_witness:
  "(\<exists>score alignment H.
      smith_waterman_chunks ([S_test] ! 0) GAP_OPEN GAP_EXTEND SCORE_THRESHOLD =
        Some (score, alignment, H) \<and>
      (\<forall>p \<in> set alignment. fst p < n_rows ([S_test] ! 0) \<and> snd p < n_cols ([S_test] ! 0))) \<and>
   (\<exists>h' r. find_multiple_alignments [S_test] 0 GAP_OPEN GAP_EXTEND 1 3 10 = Some (h', r) \<and>
      (\<forall>x \<in> set r. \<forall>p \<in> set (snd x).
         fst p < n_rows ([S_test] ! 0) \<and> snd p < n_cols ([S_test] ! 0)))"
  by (rule alignment_in_bounds) simp

end
